theory Spec2Isabelle
  imports Complex_Main "HOL-Library.Word"
begin

section \<open>Acquisition-to-metrics pipeline of the UART capture scripts\<close>

text \<open>
  The development embeds the numerical core of the capture scripts
  (\<^verbatim>\<open>uart_p3.py\<close> and its Butterworth and Savitzky-Golay variants, and the burst
  analyser \<^verbatim>\<open>uart_v4.py\<close>). Raw codes are 16-bit words and bytes are 8-bit words.
  Voltages, time stamps and spectra are IEEE floating-point numbers in the scripts; here
  they are idealised as real (and complex) numbers, so every statement about them is a
  statement about the exact arithmetic that the floating-point operations approximate.
  Library routines of NumPy and SciPy are embedded after their documented algorithms;
  every exception they or the scripts raise is a value of \<open>py_error\<close>.
\<close>

datatype py_error = ValueError | RuntimeError | IndexError | ZeroDivisionError

type_synonym byte = "8 word"
type_synonym u16 = "16 word"

subsection \<open>Frame reader (\<^verbatim>\<open>acquire_one_burst\<close>, the byte accumulation loop)\<close>

text \<open>
  The serial port is a state \<open>ser\<close> with a read operation \<open>rd\<close>: \<open>rd ser n\<close> is the
  chunk that \<^verbatim>\<open>ser.read(n)\<close> returns together with the port's next state. The loop
  \<^verbatim>\<open>while len(buf) < need: chunk = ser.read(need - len(buf)); ...\<close> starts from an
  empty \<open>buf\<close> with \<open>need = TOTAL_SAMPLES * 2\<close>; an empty chunk raises
  \<^verbatim>\<open>RuntimeError("UART timeout ...")\<close>. Every iteration that continues has
  lengthened \<open>buf\<close>, which is the termination argument.
\<close>

function read_exact ::
  "('s \<Rightarrow> nat \<Rightarrow> byte list \<times> 's) \<Rightarrow> nat \<Rightarrow> 's \<Rightarrow> byte list \<Rightarrow> py_error + (byte list \<times> 's)"
where
  "read_exact rd need ser buf =
     (if length buf < need then
        (let r = rd ser (need - length buf) in
         if fst r = [] then Inl RuntimeError
         else read_exact rd need (snd r) (buf @ fst r))
      else Inr (buf, ser))"
  by pat_completeness auto
termination
  by (relation "measure (\<lambda>(rd, need, ser, buf). need - length buf)")
    (auto simp: neq_Nil_conv)

text \<open>The chunks the loop receives, in order, the empty one that aborts it included.\<close>

function chunks_read ::
  "('s \<Rightarrow> nat \<Rightarrow> byte list \<times> 's) \<Rightarrow> nat \<Rightarrow> 's \<Rightarrow> byte list \<Rightarrow> byte list list"
where
  "chunks_read rd need ser buf =
     (if length buf < need then
        (let r = rd ser (need - length buf) in
         if fst r = [] then [[]]
         else fst r # chunks_read rd need (snd r) (buf @ fst r))
      else [])"
  by pat_completeness auto
termination
  by (relation "measure (\<lambda>(rd, need, ser, buf). need - length buf)")
    (auto simp: neq_Nil_conv)

declare read_exact.simps [simp del] chunks_read.simps [simp del]

text \<open>A read never returns more bytes than were asked for (pySerial's \<^verbatim>\<open>read(size)\<close>).\<close>

definition bounded_reads :: "('s \<Rightarrow> nat \<Rightarrow> byte list \<times> 's) \<Rightarrow> bool" where
  "bounded_reads rd = (\<forall>ser n. length (fst (rd ser n)) \<le> n)"

text \<open>
  A scripted port for concrete runs: its state is the bytes still in flight, and one read
  delivers at most three of them.
\<close>

definition slow_port :: "byte list \<Rightarrow> nat \<Rightarrow> byte list \<times> byte list" where
  "slow_port pending n = (take (min n 3) pending, drop (min n 3) pending)"

subsection \<open>Raw frame decoding and channel demultiplexing\<close>

text \<open>
  \<^verbatim>\<open>np.frombuffer(data, dtype=np.uint16)\<close>: two bytes per element in the byte order of
  the host, taken to be little-endian (low byte first) as the transport protocol has it.
  A buffer whose size is not a multiple of the element size raises \<^verbatim>\<open>ValueError\<close>
  ("buffer size must be a multiple of element size").
\<close>

definition u16_le :: "byte \<Rightarrow> byte \<Rightarrow> u16" where
  "u16_le lo hi = word_of_nat (unat lo + 256 * unat hi)"

fun le_u16s :: "byte list \<Rightarrow> u16 list" where
  "le_u16s (lo # hi # bs) = u16_le lo hi # le_u16s bs"
| "le_u16s _ = []"

definition frombuffer_u16 :: "byte list \<Rightarrow> py_error + u16 list" where
  "frombuffer_u16 data =
     (if length data mod 2 \<noteq> 0 then Inl ValueError else Inr (le_u16s data))"

text \<open>The slices \<^verbatim>\<open>a[::2]\<close> and \<^verbatim>\<open>a[1::2]\<close>: every second element, from index 0 or 1.\<close>

fun stride2 :: "'a list \<Rightarrow> 'a list" where
  "stride2 [] = []"
| "stride2 [x] = [x]"
| "stride2 (x # y # xs) = x # stride2 xs"

definition adc1_of :: "'a list \<Rightarrow> 'a list" where
  "adc1_of adc_array = stride2 adc_array"

definition adc2_of :: "'a list \<Rightarrow> 'a list" where
  "adc2_of adc_array = stride2 (drop 1 adc_array)"

text \<open>Re-interleaving two channels as A0, B0, A1, B1, ... (the inverse the property names).\<close>

fun interleave :: "'a list \<Rightarrow> 'a list \<Rightarrow> 'a list" where
  "interleave (a # as) (b # bs) = a # b # interleave as bs"
| "interleave _ _ = []"

subsection \<open>Voltage conversion\<close>

text \<open>
  \<^verbatim>\<open>(adc.astype(np.float32) * 3300) / 4095\<close> for one code, and the mirror
  \<^verbatim>\<open>2 * 1650 - v\<close> applied to the second channel.
\<close>

definition to_mV :: "u16 \<Rightarrow> real" where
  "to_mV code = (real (unat code) * 3300) / 4095"

definition mirror :: "real \<Rightarrow> real" where
  "mirror v = 2 * 1650 - v"

definition v_adc1_of :: "u16 list \<Rightarrow> real list" where
  "v_adc1_of adc_array = map to_mV (adc1_of adc_array)"

definition v_adc2_of :: "u16 list \<Rightarrow> real list" where
  "v_adc2_of adc_array = map mirror (map to_mV (adc2_of adc_array))"

subsection \<open>Time axis and rate estimation\<close>

text \<open>
  \<^verbatim>\<open>np.linspace(start, stop, num)\<close> with the end point included: \<open>num\<close> values
  \<open>i * step + start\<close> with \<open>step = (stop - start) / (num - 1)\<close>, the last one set to
  \<open>stop\<close>. The scripts call it as
  \<^verbatim>\<open>np.linspace(0, sample_count / SAMPLING_RATE, sample_count)\<close> with
  \<^verbatim>\<open>sample_count = TOTAL_SAMPLES // 2\<close>; the division of two Python integers raises
  \<^verbatim>\<open>ZeroDivisionError\<close> for a zero rate.
\<close>

definition np_linspace :: "real \<Rightarrow> real \<Rightarrow> nat \<Rightarrow> real list" where
  "np_linspace start stop num =
     (let step = (stop - start) / real (num - 1);
          y = map (\<lambda>i. real i * step + start) [0..<num]
      in if num > 1 then y[num - 1 := stop] else y)"

definition time_axis_of :: "nat \<Rightarrow> nat \<Rightarrow> py_error + real list" where
  "time_axis_of TOTAL_SAMPLES SAMPLING_RATE =
     (let sample_count = TOTAL_SAMPLES div 2 in
      if SAMPLING_RATE = 0 then Inl ZeroDivisionError
      else Inr (np_linspace 0 (real sample_count / real SAMPLING_RATE) sample_count))"

text \<open>The nominal axis \<open>i / SAMPLING_RATE\<close>, against which the stretch is measured.\<close>

definition nominal_axis :: "nat \<Rightarrow> nat \<Rightarrow> real list" where
  "nominal_axis sample_count SAMPLING_RATE =
     map (\<lambda>i. real i / real SAMPLING_RATE) [0..<sample_count]"

text \<open>
  Indexing an array with an index array (\<^verbatim>\<open>time_axis[peaks]\<close>) raises
  \<^verbatim>\<open>IndexError\<close> when an index is out of bounds; \<^verbatim>\<open>np.diff\<close> and \<^verbatim>\<open>np.mean\<close>.
\<close>

definition np_take :: "'a list \<Rightarrow> nat list \<Rightarrow> py_error + 'a list" where
  "np_take a idx =
     (if list_all (\<lambda>i. i < length a) idx then Inr (map (nth a) idx) else Inl IndexError)"

definition np_diff :: "real list \<Rightarrow> real list" where
  "np_diff a = map (\<lambda>i. a ! Suc i - a ! i) [0..<length a - 1]"

definition np_mean :: "real list \<Rightarrow> real" where
  "np_mean a = sum_list a / real (length a)"

text \<open>
  \<^verbatim>\<open>estimate_bpm\<close> prints either the estimated rate or that there are not enough peaks;
  the report is its result here. A zero period makes \<^verbatim>\<open>60 / periods\<close> infinite in
  floating point (a warning, not an exception), so the printed mean is no real number:
  that outcome is \<open>NonFinite\<close>.
\<close>

datatype bpm_report = Estimated real | NotEnoughPeaks | NonFinite

definition estimate_bpm :: "nat list \<Rightarrow> real list \<Rightarrow> py_error + bpm_report" where
  "estimate_bpm peaks time_axis =
     (case np_take time_axis peaks of
        Inl e \<Rightarrow> Inl e
      | Inr peak_times \<Rightarrow>
          if length peaks \<ge> 2 then
            (let periods = np_diff peak_times in
             if list_ex (\<lambda>p. p = 0) periods then Inr NonFinite
             else Inr (Estimated (np_mean (map (\<lambda>p. 60 / p) periods))))
          else Inr NotEnoughPeaks)"

subsection \<open>Peak detection (\<^verbatim>\<open>scipy.signal.find_peaks\<close>)\<close>

text \<open>
  \<^verbatim>\<open>_local_maxima_1d\<close>: the scan for local maxima. \<open>i\<close> runs from 1 to the
  last index but one; a sample higher than its predecessor starts a plateau, which
  \<open>skip_equal\<close> runs through (the inner \<^verbatim>\<open>while\<close>); if the sample after the plateau is
  lower, the midpoint of the plateau is a peak and the scan goes on behind it.
\<close>

function skip_equal :: "real list \<Rightarrow> real \<Rightarrow> nat \<Rightarrow> nat" where
  "skip_equal x v i_ahead =
     (if i_ahead < length x - 1 \<and> x ! i_ahead = v then skip_equal x v (i_ahead + 1)
      else i_ahead)"
  by pat_completeness auto
termination
  by (relation "measure (\<lambda>(x, v, i_ahead). length x - i_ahead)") auto

declare skip_equal.simps [simp del]

lemma skip_equal_ge: "i \<le> skip_equal x v i"
proof (induction x v i rule: skip_equal.induct)
  case (1 x v i)
  show ?case
  proof (cases "i < length x - 1 \<and> x ! i = v")
    case True
    from 1 [OF True] have "i + 1 \<le> skip_equal x v (i + 1)" .
    moreover from True have "skip_equal x v i = skip_equal x v (i + 1)"
      by (subst skip_equal.simps) simp
    ultimately show ?thesis by simp
  next
    case False
    then have "skip_equal x v i = i"
      by (subst skip_equal.simps) auto
    then show ?thesis by simp
  qed
qed

function local_maxima_from :: "real list \<Rightarrow> nat \<Rightarrow> nat list" where
  "local_maxima_from x i =
     (if i < length x - 1 then
        (if x ! (i - 1) < x ! i then
           (let i_ahead = skip_equal x (x ! i) (i + 1) in
            if x ! i_ahead < x ! i
            then ((i + (i_ahead - 1)) div 2) # local_maxima_from x (i_ahead + 1)
            else local_maxima_from x (i + 1))
         else local_maxima_from x (i + 1))
      else [])"
  by pat_completeness auto
termination
proof (relation "measure (\<lambda>(x, i). length x - i)", goal_cases)
  case 1
  then show ?case by simp
next
  case (2 x i i_ahead)
  have "i + 1 \<le> skip_equal x (x ! i) (i + 1)" by (rule skip_equal_ge)
  with 2 show ?case by simp
next
  case 3
  then show ?case by simp
next
  case 4
  then show ?case by simp
qed

declare local_maxima_from.simps [simp del]

definition local_maxima_1d :: "real list \<Rightarrow> nat list" where
  "local_maxima_1d x = local_maxima_from x 1"

text \<open>Boolean mask indexing \<^verbatim>\<open>peaks[keep]\<close>.\<close>

definition np_compress :: "'a list \<Rightarrow> bool list \<Rightarrow> 'a list" where
  "np_compress a keep = map fst (filter snd (zip a keep))"

text \<open>
  \<^verbatim>\<open>_select_by_peak_distance\<close>: peaks are visited from the highest priority (their height)
  downwards; a peak still kept clears the flags of its neighbours to the left and to the
  right for as long as they are closer than \<open>distance\<close>. In \<open>clear_left\<close> the counter is
  \<open>k + 1\<close>, so that running below index 0 ends the loop. \<^verbatim>\<open>np.argsort\<close> is embedded
  as a stable sort of the positions; the order it gives to equal priorities is not fixed
  by NumPy, and nothing below depends on it.
\<close>

fun clear_left :: "nat list \<Rightarrow> nat \<Rightarrow> nat \<Rightarrow> bool list \<Rightarrow> nat \<Rightarrow> bool list" where
  "clear_left peaks distance j keep 0 = keep"
| "clear_left peaks distance j keep (Suc k) =
     (if int (peaks ! j) - int (peaks ! k) < int distance
      then clear_left peaks distance j (keep[k := False]) k
      else keep)"

function clear_right :: "nat list \<Rightarrow> nat \<Rightarrow> nat \<Rightarrow> bool list \<Rightarrow> nat \<Rightarrow> bool list" where
  "clear_right peaks distance j keep k =
     (if k < length peaks \<and> int (peaks ! k) - int (peaks ! j) < int distance
      then clear_right peaks distance j (keep[k := False]) (k + 1)
      else keep)"
  by pat_completeness auto
termination
  by (relation "measure (\<lambda>(peaks, distance, j, keep, k). length peaks - k)") auto

declare clear_right.simps [simp del]

definition visit_peak :: "nat list \<Rightarrow> nat \<Rightarrow> bool list \<Rightarrow> nat \<Rightarrow> bool list" where
  "visit_peak peaks distance keep j =
     (if \<not> keep ! j then keep
      else clear_right peaks distance j (clear_left peaks distance j keep j) (j + 1))"

definition np_argsort :: "real list \<Rightarrow> nat list" where
  "np_argsort priority = sort_key (\<lambda>j. priority ! j) [0..<length priority]"

definition select_by_peak_distance :: "nat list \<Rightarrow> real list \<Rightarrow> nat \<Rightarrow> bool list" where
  "select_by_peak_distance peaks priority distance =
     (let priority_to_position = np_argsort priority
      in foldl (visit_peak peaks distance) (replicate (length peaks) True)
           (rev priority_to_position))"

text \<open>
  \<^verbatim>\<open>_peak_prominences\<close> (no window): from the peak the scan walks to the left and to the
  right while the samples do not exceed the peak and records the lowest one on each side;
  the prominence is the height above the higher of the two. In \<open>left_min_scan\<close> the
  counter is \<open>i + 1\<close>. A peak index outside the series raises \<^verbatim>\<open>ValueError\<close>.
\<close>

fun left_min_scan :: "real list \<Rightarrow> real \<Rightarrow> nat \<Rightarrow> real \<Rightarrow> real" where
  "left_min_scan x h 0 left_min = left_min"
| "left_min_scan x h (Suc i) left_min =
     (if x ! i \<le> h
      then left_min_scan x h i (if x ! i < left_min then x ! i else left_min)
      else left_min)"

function right_min_scan :: "real list \<Rightarrow> real \<Rightarrow> nat \<Rightarrow> real \<Rightarrow> real" where
  "right_min_scan x h i right_min =
     (if i < length x \<and> x ! i \<le> h
      then right_min_scan x h (i + 1) (if x ! i < right_min then x ! i else right_min)
      else right_min)"
  by pat_completeness auto
termination
  by (relation "measure (\<lambda>(x, h, i, right_min). length x - i)") auto

declare right_min_scan.simps [simp del]

definition prominence_of :: "real list \<Rightarrow> nat \<Rightarrow> real" where
  "prominence_of x peak =
     (let left_min = left_min_scan x (x ! peak) (Suc peak) (x ! peak);
          right_min = right_min_scan x (x ! peak) peak (x ! peak)
      in x ! peak - max left_min right_min)"

definition peak_prominences :: "real list \<Rightarrow> nat list \<Rightarrow> py_error + real list" where
  "peak_prominences x peaks =
     (if list_all (\<lambda>peak. peak < length x) peaks
      then Inr (map (prominence_of x) peaks)
      else Inl ValueError)"

text \<open>
  \<^verbatim>\<open>find_peaks(x, distance=..., prominence=...)\<close> as the scripts call it: the distance
  is checked first (\<^verbatim>\<open>distance < 1\<close> raises \<^verbatim>\<open>ValueError\<close>), then the maxima are
  thinned by distance, then the remaining ones are filtered by prominence.
\<close>

definition find_peaks :: "real list \<Rightarrow> nat \<Rightarrow> real \<Rightarrow> py_error + nat list" where
  "find_peaks x distance prominence =
     (if distance < 1 then Inl ValueError
      else
        (let peaks = local_maxima_1d x;
             keep = select_by_peak_distance peaks (map (nth x) peaks) distance;
             peaks = np_compress peaks keep
         in case peak_prominences x peaks of
              Inl e \<Rightarrow> Inl e
            | Inr prominences \<Rightarrow>
                Inr (np_compress peaks (map (\<lambda>p. prominence \<le> p) prominences))))"

text \<open>
  The invariant of the selection loop: every visited peak that is still kept is at least
  \<open>distance\<close> away from every other peak still kept.
\<close>

definition far_apart :: "nat list \<Rightarrow> nat \<Rightarrow> nat \<Rightarrow> nat \<Rightarrow> bool" where
  "far_apart peaks d a b = (int d \<le> \<bar>int (peaks ! a) - int (peaks ! b)\<bar>)"

definition spaced :: "nat list \<Rightarrow> nat \<Rightarrow> bool list \<Rightarrow> nat set \<Rightarrow> bool" where
  "spaced peaks d keep S =
     (length keep = length peaks
      \<and> (\<forall>a\<in>S. \<forall>b<length peaks. keep ! a \<longrightarrow> keep ! b \<longrightarrow> a \<noteq> b \<longrightarrow> far_apart peaks d a b))"

subsection \<open>Signal conditioning: moving average, Butterworth, Savitzky-Golay\<close>

text \<open>
  \<^verbatim>\<open>np.convolve(a, v, mode='valid')\<close>: an empty operand raises \<^verbatim>\<open>ValueError\<close>; the
  operands are swapped when \<open>v\<close> is the longer one; the result has one value for every
  position at which the shorter sequence lies fully inside the longer one.
\<close>

definition np_convolve_valid :: "real list \<Rightarrow> real list \<Rightarrow> py_error + real list" where
  "np_convolve_valid a v =
     (if a = [] \<or> v = [] then Inl ValueError
      else
        (let a' = (if length v > length a then v else a);
             v' = (if length v > length a then a else v);
             m = length v'
         in Inr (map (\<lambda>k. sum_list (map (\<lambda>j. v' ! j * a' ! (k + m - 1 - j)) [0..<m]))
                   [0..<length a' - m + 1])))"

text \<open>\<^verbatim>\<open>np.convolve(signal, np.ones(window_size)/window_size, mode='valid')\<close>.\<close>

definition moving_average :: "real list \<Rightarrow> nat \<Rightarrow> py_error + real list" where
  "moving_average signal window_size =
     np_convolve_valid signal (replicate window_size (1 / real window_size))"


text \<open>
  \<^verbatim>\<open>scipy.signal.lfilter(b, a, x, zi=zi)\<close>: the transposed direct form II recursion,
  with the coefficients padded to a common length and normalised by \<open>a[0]\<close>; a zero
  \<open>a[0]\<close> or an initial state of the wrong length raises \<^verbatim>\<open>ValueError\<close>.
\<close>

definition pad_zeros :: "nat \<Rightarrow> real list \<Rightarrow> real list" where
  "pad_zeros n c = c @ replicate (n - length c) 0"

definition df2t_step :: "real list \<Rightarrow> real list \<Rightarrow> real list \<Rightarrow> real \<Rightarrow> real \<times> real list" where
  "df2t_step b a z xk =
     (let yk = b ! 0 * xk + (if z = [] then 0 else z ! 0);
          z' = map (\<lambda>i. b ! (i + 1) * xk + (if i + 1 < length z then z ! (i + 1) else 0)
                       - a ! (i + 1) * yk) [0..<length z]
      in (yk, z'))"

fun lfilter_run :: "real list \<Rightarrow> real list \<Rightarrow> real list \<Rightarrow> real list \<Rightarrow> real list" where
  "lfilter_run b a z [] = []"
| "lfilter_run b a z (xk # xs) =
     (let r = df2t_step b a z xk in fst r # lfilter_run b a (snd r) xs)"

definition lfilter :: "real list \<Rightarrow> real list \<Rightarrow> real list \<Rightarrow> real list \<Rightarrow> py_error + real list" where
  "lfilter b a x zi =
     (if a = [] \<or> b = [] then Inl ValueError
      else if a ! 0 = 0 then Inl ValueError
      else
        (let n = max (length a) (length b);
             bn = map (\<lambda>c. c / a ! 0) (pad_zeros n b);
             an = map (\<lambda>c. c / a ! 0) (pad_zeros n a)
         in if length zi \<noteq> n - 1 then Inl ValueError
            else Inr (lfilter_run bn an zi x)))"

text \<open>
  \<^verbatim>\<open>scipy.signal.filtfilt(b, a, x)\<close> with its defaults: the series is extended at both
  ends by \<open>3 * max(len(a), len(b))\<close> samples mirrored through the end points (it must
  be longer than that, or \<^verbatim>\<open>ValueError\<close> is raised), filtered forwards and backwards
  from the steady state \<open>lfilter_zi(b, a)\<close>, and the extension is cut off again. The
  filter design \<^verbatim>\<open>butter\<close> and the steady state \<^verbatim>\<open>lfilter_zi\<close> are numerical
  routines of SciPy; they are parameters here.
\<close>

definition odd_ext :: "real list \<Rightarrow> nat \<Rightarrow> real list" where
  "odd_ext x n =
     map (\<lambda>i. 2 * x ! 0 - x ! (n - i)) [0..<n] @ x
     @ map (\<lambda>i. 2 * last x - x ! (length x - 2 - i)) [0..<n]"

definition filtfilt ::
  "(real list \<Rightarrow> real list \<Rightarrow> real list) \<Rightarrow> real list \<Rightarrow> real list \<Rightarrow> real list
   \<Rightarrow> py_error + real list" where
  "filtfilt lfilter_zi b a x =
     (let edge = 3 * max (length a) (length b) in
      if length x \<le> edge then Inl ValueError
      else
        (let ext = odd_ext x edge;
             zi = lfilter_zi b a
         in case lfilter b a ext (map (\<lambda>z. z * ext ! 0) zi) of
              Inl e \<Rightarrow> Inl e
            | Inr y \<Rightarrow>
                (case lfilter b a (rev y) (map (\<lambda>z. z * last y) zi) of
                   Inl e \<Rightarrow> Inl e
                 | Inr y' \<Rightarrow> Inr (take (length y' - 2 * edge) (drop edge (rev y'))))))"

text \<open>
  \<^verbatim>\<open>butter_lowpass\<close> and \<^verbatim>\<open>lowpass_filter\<close> of the Butterworth script. A zero
  Nyquist frequency makes the division raise; \<^verbatim>\<open>butter\<close> rejects a normalised cut-off
  outside \<open>(0, 1)\<close>.
\<close>

definition butter_lowpass ::
  "(nat \<Rightarrow> real \<Rightarrow> real list \<times> real list) \<Rightarrow> real \<Rightarrow> real \<Rightarrow> nat
   \<Rightarrow> py_error + real list \<times> real list" where
  "butter_lowpass butter cutoff fs order =
     (let nyq = 0.5 * fs in
      if nyq = 0 then Inl ZeroDivisionError
      else
        (let norm_cutoff = cutoff / nyq in
         if \<not> (0 < norm_cutoff \<and> norm_cutoff < 1) then Inl ValueError
         else Inr (butter order norm_cutoff)))"

definition lowpass_filter ::
  "(nat \<Rightarrow> real \<Rightarrow> real list \<times> real list) \<Rightarrow> (real list \<Rightarrow> real list \<Rightarrow> real list)
   \<Rightarrow> real list \<Rightarrow> real \<Rightarrow> real \<Rightarrow> nat \<Rightarrow> py_error + real list" where
  "lowpass_filter butter lfilter_zi data cutoff fs order =
     (case butter_lowpass butter cutoff fs order of
        Inl e \<Rightarrow> Inl e
      | Inr ba \<Rightarrow> filtfilt lfilter_zi (fst ba) (snd ba) data)"

text \<open>
  \<^verbatim>\<open>scipy.signal.savgol_filter(x, window_length, polyorder)\<close> in its default mode
  \<^verbatim>\<open>'interp'\<close>: the series is convolved with the filter coefficients (zero beyond the
  ends), then the first and the last \<open>window_length // 2\<close> values are replaced by the
  values of a polynomial fitted to the first and the last window. The coefficients
  (\<^verbatim>\<open>savgol_coeffs\<close>) and the least-squares fit (\<^verbatim>\<open>np.polyfit\<close>) are parameters.
  The window has to be odd, as the script notes, longer than the order and no longer than
  the series; otherwise \<^verbatim>\<open>ValueError\<close> is raised.
\<close>

definition ext0 :: "real list \<Rightarrow> int \<Rightarrow> real" where
  "ext0 x k = (if 0 \<le> k \<and> k < int (length x) then x ! nat k else 0)"

definition convolve1d_constant :: "real list \<Rightarrow> real list \<Rightarrow> real list" where
  "convolve1d_constant x weights =
     (let w = rev weights; size = length w in
      map (\<lambda>i. sum_list (map (\<lambda>j. w ! j * ext0 x (int i + int j - int (size div 2))) [0..<size]))
        [0..<length x])"

definition np_polyval :: "real list \<Rightarrow> real \<Rightarrow> real" where
  "np_polyval p t = foldl (\<lambda>acc c. acc * t + c) 0 p"

definition fit_edge ::
  "(real list \<Rightarrow> real list \<Rightarrow> nat \<Rightarrow> real list) \<Rightarrow> real list \<Rightarrow> nat \<Rightarrow> nat \<Rightarrow> nat \<Rightarrow> nat
   \<Rightarrow> nat \<Rightarrow> real list \<Rightarrow> real list" where
  "fit_edge polyfit x window_start window_stop interp_start interp_stop polyorder y =
     (let x_edge = take (window_stop - window_start) (drop window_start x);
          poly_coeffs = polyfit (map real [0..<window_stop - window_start]) x_edge polyorder;
          values = map (\<lambda>i. np_polyval poly_coeffs (real i))
                     [interp_start - window_start..<interp_stop - window_start]
      in take interp_start y @ values @ drop interp_stop y)"

definition savgol_filter ::
  "(nat \<Rightarrow> nat \<Rightarrow> real list) \<Rightarrow> (real list \<Rightarrow> real list \<Rightarrow> nat \<Rightarrow> real list)
   \<Rightarrow> real list \<Rightarrow> nat \<Rightarrow> nat \<Rightarrow> py_error + real list" where
  "savgol_filter savgol_coeffs polyfit x window_length polyorder =
     (if polyorder \<ge> window_length then Inl ValueError
      else if window_length mod 2 = 0 then Inl ValueError
      else if window_length > length x then Inl ValueError
      else
        (let coeffs = savgol_coeffs window_length polyorder;
             y = convolve1d_constant x coeffs;
             halflen = window_length div 2;
             n = length x;
             y = fit_edge polyfit x 0 window_length 0 halflen polyorder y;
             y = fit_edge polyfit x (n - window_length) n (n - halflen) n polyorder y
         in Inr y))"

text \<open>
  The guarded call of the Savitzky-Golay script: a series shorter than the window is
  reported and the cycle is skipped.
\<close>

datatype 'a cycle = Smoothed 'a | Skipped

definition savgol_stage ::
  "(nat \<Rightarrow> nat \<Rightarrow> real list) \<Rightarrow> (real list \<Rightarrow> real list \<Rightarrow> nat \<Rightarrow> real list)
   \<Rightarrow> real list \<Rightarrow> nat \<Rightarrow> nat \<Rightarrow> py_error + real list cycle" where
  "savgol_stage savgol_coeffs polyfit v_adc SAVGOL_WINDOW SAVGOL_POLYORDER =
     (if length v_adc \<ge> SAVGOL_WINDOW then
        (case savgol_filter savgol_coeffs polyfit v_adc SAVGOL_WINDOW SAVGOL_POLYORDER of
           Inl e \<Rightarrow> Inl e
         | Inr v_smooth \<Rightarrow> Inr (Smoothed v_smooth))
      else Inr Skipped)"

text \<open>
  Stand-ins for the numerical routines in concrete runs: a first-order design with two
  equal taps and its steady state, a three-point mean, and the line through the first two
  points of a window.
\<close>

definition two_tap_butter :: "nat \<Rightarrow> real \<Rightarrow> real list \<times> real list" where
  "two_tap_butter order norm_cutoff = ([1 / 2, 1 / 2], [1, 0])"

definition two_tap_zi :: "real list \<Rightarrow> real list \<Rightarrow> real list" where
  "two_tap_zi b a = [1 / 2]"

definition mean3_coeffs :: "nat \<Rightarrow> nat \<Rightarrow> real list" where
  "mean3_coeffs window_length polyorder = [1 / 3, 1 / 3, 1 / 3]"

definition line_polyfit :: "real list \<Rightarrow> real list \<Rightarrow> nat \<Rightarrow> real list" where
  "line_polyfit ts ys deg = [ys ! 1 - ys ! 0, ys ! 0]"

subsection \<open>Burst spectral analysis (\<^verbatim>\<open>acquire_one_burst\<close>, after the read)\<close>

text \<open>
  What the dead-band filter does to a series: every sample within \<open>thresh\<close> of the mean
  becomes the mean. (\<^verbatim>\<open>filter_voltage\<close> itself writes this into the array it is given;
  it is embedded over a store further down.)
\<close>

definition deadband :: "real list \<Rightarrow> real \<Rightarrow> real list" where
  "deadband v thresh =
     (let mean = np_mean v in map (\<lambda>s. if \<bar>s - mean\<bar> \<le> thresh then mean else s) v)"

text \<open>
  \<^verbatim>\<open>np.hanning(M)\<close> (from \<^verbatim>\<open>n = arange(1 - M, M, 2)\<close>), the discrete Fourier
  transform \<^verbatim>\<open>np.fft.fft\<close> (no data points raise \<^verbatim>\<open>ValueError\<close>), the frequencies
  \<^verbatim>\<open>np.fft.fftfreq(n, d)\<close>, and the reductions \<^verbatim>\<open>argmax\<close> (first index of the
  maximum), \<^verbatim>\<open>max\<close> and \<^verbatim>\<open>min\<close>, which raise \<^verbatim>\<open>ValueError\<close> on an empty array.
\<close>

definition np_hanning :: "nat \<Rightarrow> real list" where
  "np_hanning M =
     (if M < 1 then []
      else if M = 1 then [1]
      else map (\<lambda>i. 0.5 + 0.5 * cos (pi * real_of_int (1 - int M + 2 * int i) / real (M - 1)))
             [0..<M])"

definition np_fft :: "real list \<Rightarrow> py_error + complex list" where
  "np_fft x =
     (let n = length x in
      if n < 1 then Inl ValueError
      else Inr (map (\<lambda>k. sum_list (map (\<lambda>m. complex_of_real (x ! m)
                                   * cis (- 2 * pi * real k * real m / real n)) [0..<n]))
                  [0..<n]))"

definition np_fftfreq :: "nat \<Rightarrow> real \<Rightarrow> py_error + real list" where
  "np_fftfreq n d =
     (if real n * d = 0 then Inl ZeroDivisionError
      else
        (let val = 1 / (real n * d);
             N = (n - 1) div 2 + 1;
             p1 = map real_of_int (map int [0..<N]);
             p2 = map (\<lambda>i. real_of_int (int i - int (n div 2))) [0..<n div 2]
         in Inr (map (\<lambda>r. r * val) (p1 @ p2))))"

fun argmax_from :: "real list \<Rightarrow> nat \<Rightarrow> nat \<Rightarrow> real \<Rightarrow> nat" where
  "argmax_from [] i best best_val = best"
| "argmax_from (y # ys) i best best_val =
     (if best_val < y then argmax_from ys (i + 1) i y
      else argmax_from ys (i + 1) best best_val)"

definition np_argmax :: "real list \<Rightarrow> py_error + nat" where
  "np_argmax a = (case a of [] \<Rightarrow> Inl ValueError | y # ys \<Rightarrow> Inr (argmax_from ys 1 0 y))"

definition np_max :: "real list \<Rightarrow> py_error + real" where
  "np_max a = (case a of [] \<Rightarrow> Inl ValueError | y # ys \<Rightarrow> Inr (fold max ys y))"

definition np_min :: "real list \<Rightarrow> py_error + real" where
  "np_min a = (case a of [] \<Rightarrow> Inl ValueError | y # ys \<Rightarrow> Inr (fold min ys y))"

text \<open>
  The tuple \<^verbatim>\<open>acquire_one_burst\<close> returns, and the analysis that computes it from the
  filtered voltages: \<open>windowed\<close> is \<^verbatim>\<open>x\<close>, \<open>one_sided\<close> is \<^verbatim>\<open>one\<close> and
  \<open>mag_lin_of\<close> is \<^verbatim>\<open>mag_lin\<close>.
\<close>

record burst_record =
  burst_v_filt :: "real list"
  burst_f_axis :: "real list"
  burst_mag_dB :: "real list"
  burst_total_E :: real
  burst_res_freq :: real
  burst_pp :: real
  burst_peak_val :: real
  burst_peak_time :: real

definition windowed :: "real list \<Rightarrow> real list" where
  "windowed v_filt =
     map2 (*) (map (\<lambda>s. s - np_mean v_filt) v_filt) (np_hanning (length v_filt))"

definition one_sided :: "real list \<Rightarrow> py_error + complex list" where
  "one_sided x = (case np_fft x of Inl e \<Rightarrow> Inl e | Inr X \<Rightarrow> Inr (take (length x div 2) X))"

definition mag_lin_of :: "complex list \<Rightarrow> nat \<Rightarrow> real list" where
  "mag_lin_of one n = map (\<lambda>z. cmod z / real n) one"

definition analyse_burst :: "real list \<Rightarrow> nat \<Rightarrow> py_error + burst_record" where
  "analyse_burst v_filt SAMPLING_RATE =
     (let x = windowed v_filt in
      case one_sided x of
        Inl e \<Rightarrow> Inl e
      | Inr one \<Rightarrow>
          (let mag_lin = mag_lin_of one (length x) in
           if SAMPLING_RATE = 0 then Inl ZeroDivisionError
           else
             (case np_fftfreq (length x) (1 / real SAMPLING_RATE) of
                Inl e \<Rightarrow> Inl e
              | Inr freqs \<Rightarrow>
                  (let f_axis = take (length one) freqs;
                       mag_dB0 = map (\<lambda>m. 20 * log 10 (m + 1 / 10 ^ 12)) mag_lin
                   in case np_max mag_dB0 of
                        Inl e \<Rightarrow> Inl e
                      | Inr peak_dB \<Rightarrow>
                          (let mag_dB = map (\<lambda>m. m - peak_dB) mag_dB0;
                               total_E = sum_list (map (\<lambda>z. (cmod z) ^ 2) one)
                           in case np_argmax mag_lin of
                                Inl e \<Rightarrow> Inl e
                              | Inr res_idx \<Rightarrow>
                                  (case (np_max v_filt, np_min v_filt,
                                         np_argmax (map abs v_filt)) of
                                     (Inr hi, Inr lo, Inr pk) \<Rightarrow>
                                       Inr \<lparr>burst_v_filt = v_filt, burst_f_axis = f_axis,
                                            burst_mag_dB = mag_dB, burst_total_E = total_E,
                                            burst_res_freq = f_axis ! res_idx,
                                            burst_pp = hi - lo, burst_peak_val = v_filt ! pk,
                                            burst_peak_time = real pk / real SAMPLING_RATE\<rparr>
                                   | _ \<Rightarrow> Inl ValueError))))))"

subsection \<open>Arrays in a store: the dead-band filter and the burst pipeline\<close>

text \<open>
  NumPy arrays are mutable objects, and \<^verbatim>\<open>filter_voltage\<close> assigns through a mask into
  the array it is given. To make that visible, arrays live in a store: \<open>cells\<close> maps an
  address to the contents of the array there, and \<open>next_free\<close> is the first address not
  yet in use; a function that returns a new array allocates it there.
\<close>

record heap =
  cells :: "nat \<Rightarrow> real list"
  next_free :: nat

definition alloc :: "heap \<Rightarrow> real list \<Rightarrow> nat \<times> heap" where
  "alloc h a = (next_free h, h\<lparr>cells := (cells h)(next_free h := a), next_free := Suc (next_free h)\<rparr>)"

text \<open>
  \<^verbatim>\<open>filter_voltage(v, thresh)\<close>: \<^verbatim>\<open>mean = v.mean()\<close>, then
  \<^verbatim>\<open>v[np.abs(v - mean) <= thresh] = mean\<close> writes into \<open>v\<close> itself, and \<open>v\<close> is returned.
\<close>

definition filter_voltage :: "heap \<Rightarrow> nat \<Rightarrow> real \<Rightarrow> nat \<times> heap" where
  "filter_voltage h v thresh =
     (let mean = np_mean (cells h v);
          mask = map (\<lambda>s. \<bar>s - mean\<bar> \<le> thresh) (cells h v);
          written = map2 (\<lambda>s m. if m then mean else s) (cells h v) mask
      in (v, h\<lparr>cells := (cells h)(v := written)\<rparr>))"

text \<open>
  The three smoothing functions over the store: \<^verbatim>\<open>np.convolve\<close>, \<^verbatim>\<open>filtfilt\<close> and
  \<^verbatim>\<open>savgol_filter\<close> read their argument and return a newly allocated array.
\<close>

definition moving_average_at :: "heap \<Rightarrow> nat \<Rightarrow> nat \<Rightarrow> py_error + nat \<times> heap" where
  "moving_average_at h signal window_size =
     (case moving_average (cells h signal) window_size of
        Inl e \<Rightarrow> Inl e
      | Inr out \<Rightarrow> Inr (alloc h out))"

definition lowpass_filter_at ::
  "(nat \<Rightarrow> real \<Rightarrow> real list \<times> real list) \<Rightarrow> (real list \<Rightarrow> real list \<Rightarrow> real list)
   \<Rightarrow> heap \<Rightarrow> nat \<Rightarrow> real \<Rightarrow> real \<Rightarrow> nat \<Rightarrow> py_error + nat \<times> heap" where
  "lowpass_filter_at butter lfilter_zi h data cutoff fs order =
     (case lowpass_filter butter lfilter_zi (cells h data) cutoff fs order of
        Inl e \<Rightarrow> Inl e
      | Inr out \<Rightarrow> Inr (alloc h out))"

definition savgol_filter_at ::
  "(nat \<Rightarrow> nat \<Rightarrow> real list) \<Rightarrow> (real list \<Rightarrow> real list \<Rightarrow> nat \<Rightarrow> real list)
   \<Rightarrow> heap \<Rightarrow> nat \<Rightarrow> nat \<Rightarrow> nat \<Rightarrow> py_error + nat \<times> heap" where
  "savgol_filter_at savgol_coeffs polyfit h x window_length polyorder =
     (case savgol_filter savgol_coeffs polyfit (cells h x) window_length polyorder of
        Inl e \<Rightarrow> Inl e
      | Inr out \<Rightarrow> Inr (alloc h out))"

text \<open>
  The processing of one captured frame in \<^verbatim>\<open>acquire_one_burst\<close>: the codes are
  decoded, \<^verbatim>\<open>adc.astype(np.float32) * 3300 / 4095\<close> is a new array, which
  \<^verbatim>\<open>filter_voltage\<close> overwrites, and the analysis reads the filtered array.
  \<open>burst_metrics\<close> is the same computation as a function of the frame alone.
\<close>

definition process_burst ::
  "heap \<Rightarrow> byte list \<Rightarrow> nat \<Rightarrow> real \<Rightarrow> py_error + burst_record \<times> heap" where
  "process_burst h buf SAMPLING_RATE NOISE_DEADBAND =
     (case frombuffer_u16 buf of
        Inl e \<Rightarrow> Inl e
      | Inr adc \<Rightarrow>
          (let t = alloc h (map to_mV adc);
               f = filter_voltage (snd t) (fst t) NOISE_DEADBAND
           in case analyse_burst (cells (snd f) (fst f)) SAMPLING_RATE of
                Inl e \<Rightarrow> Inl e
              | Inr r \<Rightarrow> Inr (r, snd f)))"

definition burst_metrics :: "byte list \<Rightarrow> nat \<Rightarrow> real \<Rightarrow> py_error + burst_record" where
  "burst_metrics buf SAMPLING_RATE NOISE_DEADBAND =
     (case frombuffer_u16 buf of
        Inl e \<Rightarrow> Inl e
      | Inr adc \<Rightarrow> analyse_burst (deadband (map to_mV adc) NOISE_DEADBAND) SAMPLING_RATE)"

text \<open>A store for concrete runs: one array of three voltages at address 0.\<close>

definition caller_heap :: heap where
  "caller_heap = \<lparr>cells = (\<lambda>a. if a = 0 then [1000, 1100, 1200] else []), next_free = 1\<rparr>"

section \<open>Properties\<close>

subsection \<open>Frame reader\<close>

lemma read_exact_returns:
  "bounded_reads rd \<Longrightarrow> length buf \<le> need \<Longrightarrow>
   read_exact rd need ser buf = Inr (out, ser') \<Longrightarrow>
   length out = need \<and> out = buf @ concat (chunks_read rd need ser buf)
     \<and> [] \<notin> set (chunks_read rd need ser buf)"
proof (induction rd need ser buf rule: read_exact.induct)
  case (1 rd need ser buf)
  show ?case
  proof (cases "length buf < need")
    case False
    then have "chunks_read rd need ser buf = []"
      by (simp add: chunks_read.simps [of rd need ser buf])
    moreover from False "1.prems" have "out = buf" "length buf = need"
      by (simp_all add: read_exact.simps [of rd need ser buf])
    ultimately show ?thesis by simp
  next
    case True
    define r where "r = rd ser (need - length buf)"
    from True "1.prems"(3) have ne: "fst r \<noteq> []"
      by (auto simp: read_exact.simps [of rd need ser buf] r_def Let_def split: if_splits)
    from "1.prems"(1) have "length (fst r) \<le> need - length buf"
      by (simp add: bounded_reads_def r_def)
    with True have le: "length (buf @ fst r) \<le> need" by simp
    from True ne "1.prems"(3)
    have rec: "read_exact rd need (snd r) (buf @ fst r) = Inr (out, ser')"
      by (simp add: read_exact.simps [of rd need ser buf] r_def Let_def)
    have ch: "chunks_read rd need ser buf = fst r # chunks_read rd need (snd r) (buf @ fst r)"
      using True ne by (simp add: chunks_read.simps [of rd need ser buf] r_def [symmetric] Let_def)
    from "1.IH" [OF True r_def ne "1.prems"(1) le rec]
    have ih: "length out = need"
      "out = (buf @ fst r) @ concat (chunks_read rd need (snd r) (buf @ fst r))"
      "[] \<notin> set (chunks_read rd need (snd r) (buf @ fst r))"
      by blast+
    from ih(1) have "length out = need" .
    moreover from ih(2) have "out = buf @ concat (chunks_read rd need ser buf)"
      by (simp only: ch concat.simps append_assoc)
    moreover from ih(3) ne have "[] \<notin> set (chunks_read rd need ser buf)"
      by (simp only: ch) auto
    ultimately show ?thesis by blast
  qed
qed

lemma read_exact_raises:
  "read_exact rd need ser buf = Inl e \<Longrightarrow>
   e = RuntimeError \<and> [] \<in> set (chunks_read rd need ser buf)"
proof (induction rd need ser buf rule: read_exact.induct)
  case (1 rd need ser buf)
  show ?case
  proof (cases "length buf < need")
    case False
    with "1.prems" show ?thesis
      by (simp add: read_exact.simps [of rd need ser buf])
  next
    case True
    define r where "r = rd ser (need - length buf)"
    show ?thesis
    proof (cases "fst r = []")
      case e: True
      with True "1.prems" show ?thesis
        by (simp add: read_exact.simps [of rd need ser buf] chunks_read.simps [of rd need ser buf]
            r_def [symmetric] Let_def)
    next
      case ne: False
      with True "1.prems" have rec: "read_exact rd need (snd r) (buf @ fst r) = Inl e"
        by (simp add: read_exact.simps [of rd need ser buf] r_def Let_def)
      from "1.IH" [OF True r_def ne rec] show ?thesis using True ne
        by (simp add: chunks_read.simps [of rd need ser buf] r_def [symmetric] Let_def)
    qed
  qed
qed

text \<open>
  C3. For every required byte count \<open>need\<close> and every port whose reads return at most
  what was requested, the reader (started with an empty buffer) either returns a buffer
  of exactly \<open>need\<close> bytes, which is the concatenation of the chunks it received (nothing
  cut, nothing added), or raises the timeout error; and it raises if and only if one of
  the reads it performed before \<open>need\<close> bytes were collected returned no byte.
\<close>

theorem read_exact_exact_or_timeout:
  assumes "bounded_reads rd"
  shows "(case read_exact rd need ser [] of
            Inr (out, ser') \<Rightarrow> length out = need \<and> out = concat (chunks_read rd need ser [])
          | Inl e \<Rightarrow> e = RuntimeError)
       \<and> ((\<exists>e. read_exact rd need ser [] = Inl e) \<longleftrightarrow> [] \<in> set (chunks_read rd need ser []))"
proof (cases "read_exact rd need ser []")
  case (Inl e)
  from read_exact_raises [OF Inl] Inl show ?thesis by simp
next
  case (Inr p)
  obtain out ser' where p: "p = (out, ser')" by (cases p)
  from read_exact_returns [OF assms _ Inr [unfolded p]]
  have r: "length out = need" "out = concat (chunks_read rd need ser [])"
    "[] \<notin> set (chunks_read rd need ser [])"
    by auto
  have "read_exact rd need ser [] = Inr (out, ser')" using Inr p by simp
  with r(1) r(2) [symmetric] r(3) show ?thesis by simp
qed

theorem read_exact_exact_or_timeout_witness:
  "bounded_reads slow_port
   \<and> read_exact slow_port 4 [1, 2, 3, 4, 5, 6] [] = Inr ([1, 2, 3, 4], [5, 6])
   \<and> chunks_read slow_port 4 [1, 2, 3, 4, 5, 6] [] = [[1, 2, 3], [4]]
   \<and> read_exact slow_port 4 [1, 2, 3] [] = Inl RuntimeError
   \<and> chunks_read slow_port 4 [1, 2, 3] [] = [[1, 2, 3], []]"
proof -
  have b: "bounded_reads slow_port"
    by (auto simp add: bounded_reads_def slow_port_def)
  from read_exact_exact_or_timeout [OF b, of 4 "[1, 2, 3, 4, 5, 6]"]
    read_exact_exact_or_timeout [OF b, of 4 "[1, 2, 3]"] b
  show ?thesis
    by (simp add: read_exact.simps chunks_read.simps slow_port_def)
qed

subsection \<open>Decoding and demultiplexing\<close>

lemma unat_u16_le: "unat (u16_le lo hi) = unat lo + 256 * unat hi"
proof -
  have "unat lo < 256" "unat hi < 256"
    using unsigned_less [of lo, where ?'a = nat] unsigned_less [of hi, where ?'a = nat]
    by simp_all
  then have "unat lo + 256 * unat hi < 2 ^ 16" by simp
  then show ?thesis
    unfolding u16_le_def by (simp only: unat_of_nat len_bit0 len_num1 mod_less) simp
qed

lemma length_le_u16s: "length (le_u16s bs) = length bs div 2"
  by (induction bs rule: le_u16s.induct) simp_all

lemma nth_le_u16s:
  "2 * i + 1 < length bs \<Longrightarrow> le_u16s bs ! i = u16_le (bs ! (2 * i)) (bs ! (2 * i + 1))"
proof (induction bs arbitrary: i rule: le_u16s.induct)
  case (1 lo hi bs)
  then show ?case by (cases i) simp_all
qed simp_all

lemma length_stride2: "length (stride2 xs) = (length xs + 1) div 2"
  by (induction xs rule: stride2.induct) simp_all

lemma nth_stride2: "2 * i < length xs \<Longrightarrow> stride2 xs ! i = xs ! (2 * i)"
proof (induction xs arbitrary: i rule: stride2.induct)
  case 1
  then show ?case by simp
next
  case (2 x)
  then show ?case by simp
next
  case (3 x y xs)
  then show ?case by (cases i) simp_all
qed

lemma interleave_stride2:
  "even (length xs) \<Longrightarrow> interleave (stride2 xs) (stride2 (drop (Suc 0) xs)) = xs"
proof (induction xs rule: stride2.induct)
  case 1
  then show ?case by simp
next
  case (2 x)
  then show ?case by simp
next
  case (3 x y xs)
  then show ?case by (cases xs) simp_all
qed

text \<open>
  C1. For every even-length sample sequence, channel A holds the elements at the even
  positions and channel B those at the odd positions, each in the original order (both
  have half the length), and interleaving A and B gives back the sequence.
\<close>

theorem demux_even_odd_roundtrip:
  fixes adc_array :: "u16 list"
  assumes "even (length adc_array)"
  shows "length (adc1_of adc_array) = length adc_array div 2
       \<and> length (adc2_of adc_array) = length adc_array div 2
       \<and> (\<forall>i < length adc_array div 2.
             adc1_of adc_array ! i = adc_array ! (2 * i)
           \<and> adc2_of adc_array ! i = adc_array ! (2 * i + 1))
       \<and> interleave (adc1_of adc_array) (adc2_of adc_array) = adc_array"
proof -
  from assms obtain k where k: "length adc_array = 2 * k" by (auto elim: evenE)
  have l1: "length (adc1_of adc_array) = length adc_array div 2"
    using k by (simp add: adc1_of_def length_stride2)
  have l2: "length (adc2_of adc_array) = length adc_array div 2"
    using k by (cases k) (simp_all add: adc2_of_def length_stride2)
  have n1: "adc1_of adc_array ! i = adc_array ! (2 * i)" if "i < length adc_array div 2" for i
    using that k by (simp add: adc1_of_def nth_stride2)
  have n2: "adc2_of adc_array ! i = adc_array ! (2 * i + 1)" if "i < length adc_array div 2" for i
    using that k by (simp add: adc2_of_def nth_stride2)
  have il: "interleave (adc1_of adc_array) (adc2_of adc_array) = adc_array"
    using interleave_stride2 [OF assms] by (simp add: adc1_of_def adc2_of_def)
  from l1 l2 n1 n2 il show ?thesis by blast
qed

theorem demux_even_odd_roundtrip_witness:
  "even (length [10, 20, 11, 21 :: u16])
   \<and> adc1_of [10, 20, 11, 21 :: u16] = [10, 11]
   \<and> adc2_of [10, 20, 11, 21 :: u16] = [20, 21]
   \<and> interleave (adc1_of [10, 20, 11, 21 :: u16]) (adc2_of [10, 20, 11, 21 :: u16])
       = [10, 20, 11, 21]"
  using demux_even_odd_roundtrip [of "[10, 20, 11, 21]"]
  by (simp add: adc1_of_def adc2_of_def)

text \<open>
  C8, as stated, fails: a buffer of three bytes is not decoded with its last byte
  dropped, the decoding raises \<^verbatim>\<open>ValueError\<close>.
\<close>

theorem frombuffer_odd_length_counterexample:
  "frombuffer_u16 [0x34, 0x12, 0x56] = Inl ValueError
   \<and> frombuffer_u16 [0x34, 0x12, 0x56] \<noteq> Inr [0x1234]"
  by (simp add: frombuffer_u16_def)

text \<open>
  C8, amended. Decoding a byte buffer as unsigned 16-bit little-endian integers raises
  \<^verbatim>\<open>ValueError\<close> exactly when the length of the buffer is not a multiple of the
  2-byte element size; no trailing byte is ever dropped: a successful decoding has one
  code for every two bytes, the code at position \<open>i\<close> being byte \<open>2i\<close> plus 256 times
  byte \<open>2i+1\<close>.
\<close>

theorem frombuffer_rejects_partial_element:
  "(frombuffer_u16 data = Inl ValueError \<longleftrightarrow> length data mod 2 \<noteq> 0)
   \<and> (\<forall>codes. frombuffer_u16 data = Inr codes \<longrightarrow>
         2 * length codes = length data
       \<and> (\<forall>i < length codes.
             unat (codes ! i) = unat (data ! (2 * i)) + 256 * unat (data ! (2 * i + 1))))"
proof -
  have 1: "frombuffer_u16 data = Inl ValueError \<longleftrightarrow> length data mod 2 \<noteq> 0"
    by (simp add: frombuffer_u16_def)
  have 2: "2 * length codes = length data
       \<and> (\<forall>i < length codes.
             unat (codes ! i) = unat (data ! (2 * i)) + 256 * unat (data ! (2 * i + 1)))"
    if "frombuffer_u16 data = Inr codes" for codes
  proof -
    from that have ev: "length data mod 2 = 0" and c: "codes = le_u16s data"
      by (auto simp: frombuffer_u16_def split: if_splits)
    from ev have len: "2 * length codes = length data"
      by (simp add: c length_le_u16s) presburger
    have "unat (codes ! i) = unat (data ! (2 * i)) + 256 * unat (data ! (2 * i + 1))"
      if "i < length codes" for i
    proof -
      from that len have "2 * i + 1 < length data" by simp
      then show ?thesis by (simp add: c nth_le_u16s unat_u16_le)
    qed
    with len show ?thesis by blast
  qed
  from 1 2 show ?thesis by blast
qed

theorem frombuffer_rejects_partial_element_witness:
  "length [0x34, 0x12, 0x56 :: byte] mod 2 \<noteq> 0
   \<and> frombuffer_u16 [0x34, 0x12, 0x56] = Inl ValueError
   \<and> frombuffer_u16 [0x34, 0x12, 0x78, 0x56] = Inr [0x1234, 0x5678]"
  using frombuffer_rejects_partial_element [of "[0x34, 0x12, 0x56]"]
    frombuffer_rejects_partial_element [of "[0x34, 0x12, 0x78, 0x56]"]
  by (simp add: frombuffer_u16_def u16_le_def)

subsection \<open>Voltage conversion\<close>

text \<open>
  C6. With the constants of the scripts (3300 mV full scale, maximal code 4095, centre
  1650 mV) code 0 is converted to 0 mV and code 4095 to 3300 mV, and every converted
  value \<open>v\<close> and its mirror image \<open>2 * 1650 - v\<close> add up to \<open>2 * 1650\<close>; the second
  channel of a frame is the mirror image of its converted codes.
\<close>

theorem to_mV_endpoints_and_mirror:
  "to_mV 0 = 0 \<and> to_mV 4095 = 3300
   \<and> to_mV code + mirror (to_mV code) = 2 * 1650
   \<and> v_adc2_of adc_array = map (\<lambda>c. 2 * 1650 - to_mV c) (adc2_of adc_array)"
  by (simp add: to_mV_def mirror_def v_adc2_of_def)

subsection \<open>Rate estimation and the time axis\<close>

lemma length_linspace: "length (np_linspace a b n) = n"
  by (simp add: np_linspace_def Let_def)

lemma nth_linspace: "i < n \<Longrightarrow> np_linspace a b n ! i = real i * ((b - a) / real (n - 1)) + a"
  by (cases "i = n - 1") (auto simp: np_linspace_def Let_def nth_list_update)

lemma length_np_diff: "length (np_diff a) = length a - 1"
  by (simp add: np_diff_def)

lemma nth_np_diff:
  assumes "Suc i < length a"
  shows "np_diff a ! i = a ! Suc i - a ! i"
proof -
  from assms have "i < length a - 1" by simp
  then show ?thesis by (simp add: np_diff_def)
qed

lemma np_mean_nth: "np_mean a = (\<Sum>i<length a. a ! i) / real (length a)"
  by (simp add: np_mean_def sum_list_sum_nth atLeast0LessThan)

lemma np_take_in_range:
  "list_all (\<lambda>p. p < length a) idx \<Longrightarrow> np_take a idx = Inr (map (nth a) idx)"
  by (simp add: np_take_def)

lemma periods_nonzero:
  assumes "sorted_wrt (<) peaks" "list_all (\<lambda>p. p < length t) peaks" "sorted_wrt (<) (t :: real list)"
  shows "\<not> list_ex (\<lambda>p. p = 0) (np_diff (map (nth t) peaks))"
proof -
  have "np_diff (map (nth t) peaks) ! i \<noteq> 0" if i: "i < length peaks - 1" for i
  proof -
    from i have lt: "Suc i < length peaks" by simp
    with assms(1) have "peaks ! i < peaks ! Suc i"
      by (simp add: sorted_wrt_iff_nth_less)
    moreover from assms(2) lt have "peaks ! Suc i < length t"
      by (simp add: list_all_length)
    ultimately have "t ! (peaks ! i) < t ! (peaks ! Suc i)"
      using assms(3) by (simp add: sorted_wrt_iff_nth_less)
    with lt show ?thesis by (simp add: nth_np_diff)
  qed
  then show ?thesis
    by (auto simp: list_ex_iff in_set_conv_nth length_np_diff)
qed

lemma estimate_bpm_value:
  assumes "list_all (\<lambda>p. p < length t) peaks" "2 \<le> length peaks"
    "\<not> list_ex (\<lambda>p. p = 0) (np_diff (map (nth t) peaks))"
  shows "estimate_bpm peaks t = Inr (Estimated
           ((\<Sum>i<length peaks - 1. 60 / (t ! (peaks ! Suc i) - t ! (peaks ! i)))
             / real (length peaks - 1)))"
proof -
  have "np_mean (map (\<lambda>p. 60 / p) (np_diff (map (nth t) peaks)))
      = (\<Sum>i<length peaks - 1. 60 / (t ! (peaks ! Suc i) - t ! (peaks ! i))) / real (length peaks - 1)"
    by (simp add: np_mean_nth length_np_diff nth_np_diff)
  with assms show ?thesis
    by (simp add: estimate_bpm_def np_take_in_range Let_def)
qed

text \<open>
  C2. For every peak set (strictly increasing indices) and parallel time axis (strictly
  increasing, covering every peak index): with fewer than two peaks the estimator reports
  no rate; otherwise it reports the arithmetic mean of \<open>60 / \<Delta>t\<close> over the consecutive
  differences \<open>\<Delta>t\<close> of the peak times. Peaks at the times 1, 2, 3, 4 s give exactly 60
  events per minute (the concrete instance below).
\<close>

theorem estimate_bpm_mean_rate:
  assumes "sorted_wrt (<) peaks" and "list_all (\<lambda>p. p < length time_axis) peaks"
    and "sorted_wrt (<) time_axis"
  shows "estimate_bpm peaks time_axis =
           Inr (if length peaks < 2 then NotEnoughPeaks
                else Estimated
                  ((\<Sum>i<length peaks - 1.
                       60 / (time_axis ! (peaks ! Suc i) - time_axis ! (peaks ! i)))
                   / real (length peaks - 1)))"
proof (cases "length peaks < 2")
  case True
  with assms(2) show ?thesis
    by (simp add: estimate_bpm_def np_take_in_range)
next
  case False
  then have "2 \<le> length peaks" by simp
  from estimate_bpm_value [OF assms(2) this periods_nonzero [OF assms]] False
  show ?thesis by simp
qed

theorem estimate_bpm_mean_rate_witness:
  "sorted_wrt (<) [0, 1, 2, 3 :: nat]
   \<and> list_all (\<lambda>p. p < length [1, 2, 3, 4 :: real]) [0, 1, 2, 3]
   \<and> sorted_wrt (<) [1, 2, 3, 4 :: real]
   \<and> estimate_bpm [0, 1, 2, 3] [1, 2, 3, 4] = Inr (Estimated 60)
   \<and> estimate_bpm [2] [1, 2, 3, 4] = Inr NotEnoughPeaks"
  using estimate_bpm_mean_rate [of "[0, 1, 2, 3]" "[1, 2, 3, 4]"]
    estimate_bpm_mean_rate [of "[2]" "[1, 2, 3, 4]"]
  by (simp add: lessThan_nat_numeral lessThan_Suc)


lemma time_axis_nth:
  assumes "0 < SAMPLING_RATE" "sample_count = TOTAL_SAMPLES div 2"
  shows "\<exists>ts. time_axis_of TOTAL_SAMPLES SAMPLING_RATE = Inr ts \<and> length ts = sample_count
           \<and> (\<forall>i < sample_count. ts ! i =
                 real i * real sample_count / (real SAMPLING_RATE * real (sample_count - 1)))"
  using assms by (simp add: time_axis_of_def Let_def length_linspace nth_linspace)

lemma sorted_linear_axis:
  assumes "0 < (c::real)" "\<forall>i<length ts. ts ! i = real i * c"
  shows "sorted_wrt (<) ts"
  using assms by (simp add: sorted_wrt_iff_nth_less)

lemma rate_scaling:
  fixes ts ts0 :: "real list"
  assumes pk: "sorted_wrt (<) peaks" "list_all (\<lambda>p. p < length ts) peaks" "2 \<le> length peaks"
    and len: "length ts0 = length ts"
    and c: "0 < c" "0 < c0"
    and ts: "\<forall>i<length ts. ts ! i = real i * c"
    and ts0: "\<forall>i<length ts. ts0 ! i = real i * c0"
  shows "\<exists>r r0. estimate_bpm peaks ts = Inr (Estimated r)
               \<and> estimate_bpm peaks ts0 = Inr (Estimated r0)
               \<and> r = (c0 / c) * r0"
proof -
  let ?n = "length peaks - 1"
  let ?r = "(\<Sum>i<?n. 60 / (ts ! (peaks ! Suc i) - ts ! (peaks ! i))) / real ?n"
  let ?q = "(\<Sum>i<?n. 60 / (ts0 ! (peaks ! Suc i) - ts0 ! (peaks ! i))) / real ?n"
  have s: "sorted_wrt (<) ts" using c(1) ts by (rule sorted_linear_axis)
  have s0: "sorted_wrt (<) ts0" using c(2) ts0 len by (intro sorted_linear_axis [of c0]) simp_all
  have pk0: "list_all (\<lambda>p. p < length ts0) peaks" using pk(2) len by simp
  have e: "estimate_bpm peaks ts = Inr (Estimated ?r)"
    by (rule estimate_bpm_value [OF pk(2) pk(3) periods_nonzero [OF pk(1) pk(2) s]])
  have e0: "estimate_bpm peaks ts0 = Inr (Estimated ?q)"
    by (rule estimate_bpm_value [OF pk0 pk(3) periods_nonzero [OF pk(1) pk0 s0]])
  have tm: "60 / (ts ! (peaks ! Suc i) - ts ! (peaks ! i))
            = (c0 / c) * (60 / (ts0 ! (peaks ! Suc i) - ts0 ! (peaks ! i)))" if "i < ?n" for i
  proof -
    from that have "Suc i < length peaks" "i < length peaks" by simp_all
    with pk(2) have "peaks ! Suc i < length ts" "peaks ! i < length ts"
      by (simp_all add: list_all_length)
    with ts ts0 have
      "ts ! (peaks ! Suc i) - ts ! (peaks ! i) = (real (peaks ! Suc i) - real (peaks ! i)) * c"
      "ts0 ! (peaks ! Suc i) - ts0 ! (peaks ! i) = (real (peaks ! Suc i) - real (peaks ! i)) * c0"
      by (simp_all add: algebra_simps)
    with c show ?thesis by simp
  qed
  have "(\<Sum>i<?n. 60 / (ts ! (peaks ! Suc i) - ts ! (peaks ! i)))
      = (c0 / c) * (\<Sum>i<?n. 60 / (ts0 ! (peaks ! Suc i) - ts0 ! (peaks ! i)))"
    unfolding sum_distrib_left by (rule sum.cong) (simp_all add: tm)
  then have "?r = (c0 / c) * ?q" by simp
  with e e0 show ?thesis by blast
qed


text \<open>
  C10. In the streaming scripts a channel of \<open>sample_count = TOTAL_SAMPLES div 2\<close> samples
  (at least two) gets the time stamps
  \<open>i * sample_count / (SAMPLING_RATE * (sample_count - 1))\<close>; consecutive stamps are
  \<open>1 / SAMPLING_RATE\<close> times \<open>sample_count / (sample_count - 1)\<close> apart; and every rate
  that \<open>estimate_bpm\<close> computes from (a prefix of) this axis is
  \<open>(sample_count - 1) / sample_count\<close> times the rate it computes from the nominal axis
  \<open>i / SAMPLING_RATE\<close> for the same peaks.
\<close>

theorem linspace_time_axis_stretch:
  assumes "0 < SAMPLING_RATE" and "sample_count = TOTAL_SAMPLES div 2" and "2 \<le> sample_count"
  shows "\<exists>ts. time_axis_of TOTAL_SAMPLES SAMPLING_RATE = Inr ts \<and> length ts = sample_count
     \<and> (\<forall>i < sample_count. ts ! i =
            real i * real sample_count / (real SAMPLING_RATE * real (sample_count - 1)))
     \<and> (\<forall>i. Suc i < sample_count \<longrightarrow>
            ts ! Suc i - ts ! i
              = (1 / real SAMPLING_RATE) * (real sample_count / real (sample_count - 1)))
     \<and> (\<forall>peaks m. sorted_wrt (<) peaks \<longrightarrow> list_all (\<lambda>p. p < min m sample_count) peaks
            \<longrightarrow> 2 \<le> length peaks \<longrightarrow>
            (\<exists>r r0. estimate_bpm peaks (take m ts) = Inr (Estimated r)
               \<and> estimate_bpm peaks (take m (nominal_axis sample_count SAMPLING_RATE))
                   = Inr (Estimated r0)
               \<and> r = (real (sample_count - 1) / real sample_count) * r0))"
proof -
  let ?c = "real sample_count / (real SAMPLING_RATE * real (sample_count - 1))"
  let ?d = "1 / real SAMPLING_RATE"
  from time_axis_nth [OF assms(1,2)] obtain ts where
    ts: "time_axis_of TOTAL_SAMPLES SAMPLING_RATE = Inr ts" "length ts = sample_count"
      "\<forall>i < sample_count. ts ! i = real i * ?c"
    by auto
  have cpos: "0 < ?c" "0 < ?d" using assms(1,3) by simp_all
  have ratio: "?d / ?c = real (sample_count - 1) / real sample_count"
    using assms(1,3) by (simp add: field_simps)
  have step: "ts ! Suc i - ts ! i = ?d * (real sample_count / real (sample_count - 1))"
    if "Suc i < sample_count" for i
  proof -
    from that ts(3) have "ts ! Suc i = real (Suc i) * ?c" "ts ! i = real i * ?c" by simp_all
    then show ?thesis by (simp add: algebra_simps add_divide_distrib)
  qed
  have rates: "\<exists>r r0. estimate_bpm peaks (take m ts) = Inr (Estimated r)
               \<and> estimate_bpm peaks (take m (nominal_axis sample_count SAMPLING_RATE))
                   = Inr (Estimated r0)
               \<and> r = (real (sample_count - 1) / real sample_count) * r0"
    if pk: "sorted_wrt (<) peaks" "list_all (\<lambda>p. p < min m sample_count) peaks" "2 \<le> length peaks"
    for peaks m
  proof -
    have l: "length (take m ts) = min m sample_count"
      using ts(2) by (simp add: min.commute)
    have l0: "length (take m (nominal_axis sample_count SAMPLING_RATE)) = length (take m ts)"
      using ts(2) by (simp add: nominal_axis_def)
    have a: "\<forall>i<length (take m ts). take m ts ! i = real i * ?c"
      using ts(2,3) by simp
    have a0: "\<forall>i<length (take m ts). take m (nominal_axis sample_count SAMPLING_RATE) ! i = real i * ?d"
      using ts(2) by (simp add: nominal_axis_def)
    from pk(2) l have pr: "list_all (\<lambda>p. p < length (take m ts)) peaks" by simp
    from rate_scaling [OF pk(1) pr pk(3) l0 cpos a a0] show ?thesis
      unfolding ratio .
  qed
  have nth: "\<forall>i < sample_count. ts ! i =
      real i * real sample_count / (real SAMPLING_RATE * real (sample_count - 1))"
    using ts(3) by simp
  from ts(1,2) nth step rates show ?thesis by blast
qed

theorem linspace_time_axis_stretch_witness:
  "(0::nat) < 2 \<and> (4::nat) = 8 div 2 \<and> (2::nat) \<le> 4
   \<and> time_axis_of 8 2 = Inr [0, 2 / 3, 4 / 3, 2]
   \<and> nominal_axis 4 2 = [0, 1 / 2, 1, 3 / 2]
   \<and> estimate_bpm [0, 2] [0, 2 / 3, 4 / 3, 2] = Inr (Estimated 45)
   \<and> estimate_bpm [0, 2] (nominal_axis 4 2) = Inr (Estimated 60)"
  using linspace_time_axis_stretch [of 2 4 8]
  by (simp add: time_axis_of_def np_linspace_def nominal_axis_def estimate_bpm_def np_take_def
      np_diff_def np_mean_def upt_conv_Cons)

subsection \<open>Peak detection\<close>

lemma skip_equal_le: "skip_equal x v i \<le> max i (length x - 1)"
proof (induction x v i rule: skip_equal.induct)
  case (1 x v i)
  show ?case
  proof (cases "i < length x - 1 \<and> x ! i = v")
    case True
    from 1 [OF True] have "skip_equal x v (i + 1) \<le> max (i + 1) (length x - 1)" .
    moreover from True have "skip_equal x v i = skip_equal x v (i + 1)"
      by (subst skip_equal.simps) simp
    ultimately show ?thesis using True by simp
  next
    case False
    then have "skip_equal x v i = i"
      by (subst skip_equal.simps) auto
    then show ?thesis by simp
  qed
qed

lemma local_maxima_from_bounds:
  "p \<in> set (local_maxima_from x i) \<Longrightarrow> i \<le> p \<and> p < length x - 1"
proof (induction x i rule: local_maxima_from.induct)
  case (1 x i)
  show ?case
  proof (cases "i < length x - 1")
    case False
    with "1.prems" show ?thesis by (simp add: local_maxima_from.simps [of x i])
  next
    case lt: True
    show ?thesis
    proof (cases "x ! (i - 1) < x ! i")
      case False
      with lt "1.prems" have "p \<in> set (local_maxima_from x (i + 1))"
        by (simp add: local_maxima_from.simps [of x i])
      from "1.IH"(3) [OF lt False this] show ?thesis by simp
    next
      case up: True
      define ia where "ia = skip_equal x (x ! i) (i + 1)"
      have ge: "i + 1 \<le> ia" unfolding ia_def by (rule skip_equal_ge)
      have le: "ia \<le> length x - 1"
        using skip_equal_le [of x "x ! i" "i + 1"] lt unfolding ia_def by simp
      show ?thesis
      proof (cases "x ! ia < x ! i")
        case False
        with lt up "1.prems" have "p \<in> set (local_maxima_from x (i + 1))"
          by (simp add: local_maxima_from.simps [of x i] ia_def Let_def)
        from "1.IH"(2) [OF lt up ia_def False this] show ?thesis by simp
      next
        case True
        with lt up "1.prems"
        have "p = (i + (ia - 1)) div 2 \<or> p \<in> set (local_maxima_from x (ia + 1))"
          by (simp add: local_maxima_from.simps [of x i] ia_def Let_def)
        then show ?thesis
        proof
          assume "p = (i + (ia - 1)) div 2"
          with ge le show ?thesis by arith
        next
          assume "p \<in> set (local_maxima_from x (ia + 1))"
          from "1.IH"(1) [OF lt up ia_def True this] ge show ?thesis by simp
        qed
      qed
    qed
  qed
qed

lemma local_maxima_from_sorted: "sorted_wrt (<) (local_maxima_from x i)"
proof (induction x i rule: local_maxima_from.induct)
  case (1 x i)
  show ?case
  proof (cases "i < length x - 1")
    case False
    then show ?thesis by (simp add: local_maxima_from.simps [of x i])
  next
    case lt: True
    show ?thesis
    proof (cases "x ! (i - 1) < x ! i")
      case False
      with lt "1.IH"(3) show ?thesis
        by (simp add: local_maxima_from.simps [of x i])
    next
      case up: True
      define ia where "ia = skip_equal x (x ! i) (i + 1)"
      have ge: "i + 1 \<le> ia" unfolding ia_def by (rule skip_equal_ge)
      show ?thesis
      proof (cases "x ! ia < x ! i")
        case False
        from "1.IH"(2) [OF lt up ia_def False] lt up False show ?thesis
          by (simp add: local_maxima_from.simps [of x i] ia_def Let_def)
      next
        case True
        have "(i + (ia - 1)) div 2 < q" if "q \<in> set (local_maxima_from x (ia + 1))" for q
          using local_maxima_from_bounds [OF that] ge by arith
        moreover have "local_maxima_from x i
            = ((i + (ia - 1)) div 2) # local_maxima_from x (ia + 1)"
          using lt up True by (simp add: local_maxima_from.simps [of x i] ia_def Let_def)
        ultimately show ?thesis
          using "1.IH"(1) [OF lt up ia_def True] by simp
      qed
    qed
  qed
qed

lemma length_clear_left [simp]: "length (clear_left peaks d j keep k) = length keep"
  by (induction peaks d j keep k rule: clear_left.induct) simp_all

lemma length_clear_right [simp]: "length (clear_right peaks d j keep k) = length keep"
proof (induction peaks d j keep k rule: clear_right.induct)
  case (1 peaks d j keep k)
  show ?case
  proof (cases "k < length peaks \<and> int (peaks ! k) - int (peaks ! j) < int d")
    case True
    from 1 [OF True] True show ?thesis by (subst clear_right.simps) simp
  next
    case False
    then show ?thesis by (subst clear_right.simps) auto
  qed
qed

lemma nth_clear_left:
  assumes "sorted peaks" "k \<le> length keep" "length keep = length peaks" "a < length keep"
  shows "clear_left peaks d j keep k ! a
       = (keep ! a \<and> \<not> (a < k \<and> int (peaks ! j) - int (peaks ! a) < int d))"
  using assms
proof (induction peaks d j keep k rule: clear_left.induct)
  case (1 peaks d j keep)
  then show ?case by simp
next
  case (2 peaks d j keep k)
  show ?case
  proof (cases "int (peaks ! j) - int (peaks ! k) < int d")
    case True
    from "2.prems" have "clear_left peaks d j (keep[k := False]) k ! a
       = (keep[k := False] ! a \<and> \<not> (a < k \<and> int (peaks ! j) - int (peaks ! a) < int d))"
      by (intro "2.IH" [OF True]) simp_all
    with True "2.prems" show ?thesis
      by (cases "a = k") (auto simp: less_Suc_eq)
  next
    case False
    have "\<not> int (peaks ! j) - int (peaks ! a) < int d" if "a < Suc k"
    proof -
      from that "2.prems" have "peaks ! a \<le> peaks ! k"
        by (intro sorted_nth_mono) simp_all
      with False show ?thesis by simp
    qed
    with False show ?thesis by auto
  qed
qed

lemma nth_clear_right:
  assumes "sorted peaks" "length keep = length peaks" "a < length keep"
  shows "clear_right peaks d j keep k ! a
       = (keep ! a \<and> \<not> (k \<le> a \<and> int (peaks ! a) - int (peaks ! j) < int d))"
  using assms
proof (induction peaks d j keep k rule: clear_right.induct)
  case (1 peaks d j keep k)
  show ?case
  proof (cases "k < length peaks \<and> int (peaks ! k) - int (peaks ! j) < int d")
    case True
    from "1.prems" have "clear_right peaks d j (keep[k := False]) (k + 1) ! a
       = (keep[k := False] ! a \<and> \<not> (k + 1 \<le> a \<and> int (peaks ! a) - int (peaks ! j) < int d))"
      by (intro "1.IH" [OF True]) simp_all
    moreover from True have "clear_right peaks d j keep k
       = clear_right peaks d j (keep[k := False]) (k + 1)"
      by (subst clear_right.simps) simp
    ultimately show ?thesis using True "1.prems"
      by (cases "a = k") (auto simp: Suc_le_eq le_less)
  next
    case False
    then have eq: "clear_right peaks d j keep k = keep"
      by (subst clear_right.simps) auto
    have "\<not> int (peaks ! a) - int (peaks ! j) < int d" if "k \<le> a"
    proof -
      from that "1.prems" have "k < length peaks" by simp
      with False have far: "\<not> int (peaks ! k) - int (peaks ! j) < int d" by simp
      from that "1.prems" have "peaks ! k \<le> peaks ! a"
        by (intro sorted_nth_mono) simp_all
      with far show ?thesis by simp
    qed
    with eq show ?thesis by auto
  qed
qed

lemma length_visit_peak [simp]: "length (visit_peak peaks d keep j) = length keep"
  by (simp add: visit_peak_def)

lemma nth_visit_peak:
  assumes "sorted peaks" "length keep = length peaks" "j < length keep" "a < length keep"
    "keep ! j"
  shows "visit_peak peaks d keep j ! a = (keep ! a \<and> (a = j \<or> far_apart peaks d a j))"
proof -
  have "visit_peak peaks d keep j ! a
      = (keep ! a \<and> \<not> (a < j \<and> int (peaks ! j) - int (peaks ! a) < int d)
                 \<and> \<not> (j + 1 \<le> a \<and> int (peaks ! a) - int (peaks ! j) < int d))"
    using assms by (simp add: visit_peak_def nth_clear_right nth_clear_left)
  moreover have "peaks ! a \<le> peaks ! j" if "a < j"
    using that assms by (intro sorted_nth_mono) simp_all
  moreover have "peaks ! j \<le> peaks ! a" if "j < a"
    using that assms by (intro sorted_nth_mono) simp_all
  ultimately show ?thesis
    unfolding far_apart_def by (cases a j rule: linorder_cases) auto
qed

lemma spaced_visit_peak:
  assumes "sorted peaks" "spaced peaks d keep S" "j < length peaks" "S \<subseteq> {..<length peaks}"
  shows "spaced peaks d (visit_peak peaks d keep j) (insert j S)"
proof (cases "keep ! j")
  case False
  with assms(2) show ?thesis by (auto simp: spaced_def visit_peak_def)
next
  case True
  from assms(2) have len: "length keep = length peaks" by (simp add: spaced_def)
  have nth: "visit_peak peaks d keep j ! a = (keep ! a \<and> (a = j \<or> far_apart peaks d a j))"
    if "a < length peaks" for a
    using nth_visit_peak [OF assms(1) len _ _ True, of a d] that assms(3) len by simp
  have "far_apart peaks d a b"
    if "a \<in> insert j S" "b < length peaks" "visit_peak peaks d keep j ! a"
      "visit_peak peaks d keep j ! b" "a \<noteq> b" for a b
  proof (cases "a = j")
    case True
    with that nth [of b] have "far_apart peaks d b j" by auto
    with True show ?thesis by (simp add: far_apart_def abs_minus_commute)
  next
    case False
    with that have aS: "a \<in> S" by simp
    with assms(4) have "a < length peaks" by auto
    with that nth [of a] nth [of b] have "keep ! a" "keep ! b" by auto
    with assms(2) aS that show ?thesis by (auto simp: spaced_def)
  qed
  with len show ?thesis by (auto simp: spaced_def)
qed

lemma spaced_foldl:
  assumes "sorted peaks" "spaced peaks d keep S" "set js \<subseteq> {..<length peaks}"
    "S \<subseteq> {..<length peaks}"
  shows "spaced peaks d (foldl (visit_peak peaks d) keep js) (S \<union> set js)"
  using assms(2-)
proof (induction js arbitrary: keep S)
  case Nil
  then show ?case by simp
next
  case (Cons j js)
  from Cons.prems have j: "j < length peaks" by simp
  have "spaced peaks d (foldl (visit_peak peaks d) (visit_peak peaks d keep j) js)
          (insert j S \<union> set js)"
    using Cons.prems j
    by (intro Cons.IH spaced_visit_peak [OF assms(1)]) auto
  then show ?case by simp
qed

lemma set_np_argsort: "set (np_argsort priority) = {..<length priority}"
  by (auto simp: np_argsort_def)

lemma select_by_peak_distance_spaced:
  assumes "sorted peaks" "length priority = length peaks"
  shows "spaced peaks d (select_by_peak_distance peaks priority d) {..<length peaks}"
proof -
  have "spaced peaks d (replicate (length peaks) True) {}"
    by (simp add: spaced_def)
  from spaced_foldl [OF assms(1) this, of "rev (np_argsort priority)"]
  show ?thesis
    by (simp add: select_by_peak_distance_def set_np_argsort assms(2))
qed

lemma in_set_np_compress: "p \<in> set (np_compress a keep) \<Longrightarrow> p \<in> set a"
  by (auto simp: np_compress_def dest: set_zip_leftD)

lemma np_compress_map: "np_compress a (map f a) = filter f a"
  by (induction a) (simp_all add: np_compress_def)

lemma np_compress_sorted_wrt:
  assumes "length keep = length a"
    and "\<And>i j. i < j \<Longrightarrow> j < length a \<Longrightarrow> keep ! i \<Longrightarrow> keep ! j \<Longrightarrow> R (a ! i) (a ! j)"
  shows "sorted_wrt R (np_compress a keep)"
proof -
  let ?Q = "\<lambda>p q. snd p \<longrightarrow> snd q \<longrightarrow> R (fst p) (fst q)"
  have "sorted_wrt ?Q (zip a keep)"
    using assms by (simp add: sorted_wrt_iff_nth_less)
  then have "sorted_wrt ?Q (filter snd (zip a keep))"
    by (rule sorted_wrt_filter)
  then have "sorted_wrt (\<lambda>p q. R (fst p) (fst q)) (filter snd (zip a keep))"
    by (rule sorted_wrt_mono_rel [rotated]) auto
  then show ?thesis
    by (simp add: np_compress_def sorted_wrt_map)
qed

lemma select_by_peak_distance_gaps:
  assumes "sorted_wrt (<) peaks" "length priority = length peaks" "1 \<le> d"
  shows "sorted_wrt (\<lambda>p q. p + d \<le> q)
           (np_compress peaks (select_by_peak_distance peaks priority d))"
proof (rule np_compress_sorted_wrt)
  let ?keep = "select_by_peak_distance peaks priority d"
  have s: "sorted peaks"
    using assms(1) by (rule sorted_wrt_mono_rel [rotated]) simp
  from select_by_peak_distance_spaced [OF s assms(2)]
  have sp: "spaced peaks d ?keep {..<length peaks}" .
  then show "length ?keep = length peaks" by (simp add: spaced_def)
  fix i j assume ij: "i < j" "j < length peaks" "?keep ! i" "?keep ! j"
  with sp have "far_apart peaks d i j" by (auto simp: spaced_def)
  moreover from ij assms(1) have "peaks ! i < peaks ! j"
    by (simp add: sorted_wrt_iff_nth_less)
  ultimately show "peaks ! i + d \<le> peaks ! j"
    by (simp add: far_apart_def)
qed

lemma find_peaks_value:
  assumes "1 \<le> distance"
  shows "find_peaks x distance prominence =
     Inr (filter (\<lambda>p. prominence \<le> prominence_of x p)
           (np_compress (local_maxima_1d x)
              (select_by_peak_distance (local_maxima_1d x)
                 (map (nth x) (local_maxima_1d x)) distance)))"
proof -
  let ?sel = "np_compress (local_maxima_1d x)
              (select_by_peak_distance (local_maxima_1d x)
                 (map (nth x) (local_maxima_1d x)) distance)"
  have "p < length x" if "p \<in> set ?sel" for p
  proof -
    from that have "p \<in> set (local_maxima_1d x)" by (rule in_set_np_compress)
    then have "p \<in> set (local_maxima_from x 1)" by (simp only: local_maxima_1d_def)
    from local_maxima_from_bounds [OF this] show ?thesis by auto
  qed
  then have "list_all (\<lambda>peak. peak < length x) ?sel"
    by (simp add: list_all_iff)
  then have "peak_prominences x ?sel = Inr (map (prominence_of x) ?sel)"
    by (simp add: peak_prominences_def)
  with assms show ?thesis
    by (simp add: find_peaks_def Let_def np_compress_map [symmetric] comp_def)
qed

text \<open>
  C5, as stated, fails: with \<open>min_distance = 0\<close> the detector raises \<^verbatim>\<open>ValueError\<close>.
\<close>

theorem find_peaks_zero_distance_counterexample:
  "find_peaks [0, 1, 0] 0 100 = Inl ValueError"
  by (simp add: find_peaks_def)

text \<open>
  C5, amended. For every series, every \<open>min_distance\<close> of at least 1 and every
  \<open>min_prominence\<close> the detector returns an index sequence (it does not fail) that is
  strictly increasing and whose consecutive indices differ by at least \<open>min_distance\<close>;
  every returned index is a local maximum of the series with prominence at least
  \<open>min_prominence\<close>, so the result is empty when no local maximum has that prominence.
\<close>

theorem find_peaks_spacing:
  assumes "1 \<le> min_distance"
  shows "\<exists>peaks. find_peaks x min_distance min_prominence = Inr peaks
     \<and> sorted_wrt (<) peaks
     \<and> (\<forall>i. Suc i < length peaks \<longrightarrow> peaks ! i + min_distance \<le> peaks ! Suc i)
     \<and> (\<forall>p\<in>set peaks. p \<in> set (local_maxima_1d x) \<and> p < length x
            \<and> min_prominence \<le> prominence_of x p)
     \<and> ((\<forall>p\<in>set (local_maxima_1d x). prominence_of x p < min_prominence) \<longrightarrow> peaks = [])"
proof -
  let ?lm = "local_maxima_1d x"
  let ?sel = "np_compress ?lm (select_by_peak_distance ?lm (map (nth x) ?lm) min_distance)"
  let ?peaks = "filter (\<lambda>p. min_prominence \<le> prominence_of x p) ?sel"
  have v: "find_peaks x min_distance min_prominence = Inr ?peaks"
    by (rule find_peaks_value [OF assms])
  have "sorted_wrt (<) ?lm"
    unfolding local_maxima_1d_def by (rule local_maxima_from_sorted)
  then have "sorted_wrt (\<lambda>p q. p + min_distance \<le> q) ?sel"
    by (rule select_by_peak_distance_gaps) (use assms in simp_all)
  then have g: "sorted_wrt (\<lambda>p q. p + min_distance \<le> q) ?peaks"
    by (rule sorted_wrt_filter)
  then have s: "sorted_wrt (<) ?peaks"
    by (rule sorted_wrt_mono_rel [rotated]) (use assms in simp)
  from g have c: "\<forall>i. Suc i < length ?peaks \<longrightarrow> ?peaks ! i + min_distance \<le> ?peaks ! Suc i"
    by (simp add: sorted_wrt_iff_nth_less)
  have m: "p \<in> set ?lm \<and> p < length x \<and> min_prominence \<le> prominence_of x p"
    if "p \<in> set ?peaks" for p
  proof -
    from that have "p \<in> set ?sel" and pr: "min_prominence \<le> prominence_of x p" by simp_all
    from \<open>p \<in> set ?sel\<close> have lm: "p \<in> set ?lm" by (rule in_set_np_compress)
    then have "p \<in> set (local_maxima_from x 1)" by (simp only: local_maxima_1d_def)
    from local_maxima_from_bounds [OF this] lm pr show ?thesis by auto
  qed
  have e: "?peaks = []" if "\<forall>p\<in>set ?lm. prominence_of x p < min_prominence"
  proof -
    have "\<not> min_prominence \<le> prominence_of x p" if "p \<in> set ?sel" for p
    proof -
      from that have "p \<in> set ?lm" by (rule in_set_np_compress)
      with \<open>\<forall>p\<in>set ?lm. prominence_of x p < min_prominence\<close> show ?thesis by auto
    qed
    then show ?thesis by (simp add: filter_empty_conv)
  qed
  show ?thesis
  proof (intro exI conjI)
    show "find_peaks x min_distance min_prominence = Inr ?peaks" by (rule v)
    show "sorted_wrt (<) ?peaks" by (rule s)
    show "\<forall>i. Suc i < length ?peaks \<longrightarrow> ?peaks ! i + min_distance \<le> ?peaks ! Suc i"
      by (rule c)
    show "\<forall>p\<in>set ?peaks. p \<in> set ?lm \<and> p < length x
            \<and> min_prominence \<le> prominence_of x p"
      using m by blast
    show "(\<forall>p\<in>set ?lm. prominence_of x p < min_prominence) \<longrightarrow> ?peaks = []"
      using e by blast
  qed
qed

lemma local_maxima_example: "local_maxima_1d [0, 200, 0, 150, 0, 300, 0] = [1, 3, 5]"
  by (simp add: local_maxima_1d_def local_maxima_from.simps skip_equal.simps Let_def)

lemma np_argsort_example: "np_argsort [200, 150, 300] = [1, 0, 2]"
  by (simp add: np_argsort_def upt_conv_Cons)

lemma select_example:
  "select_by_peak_distance [1, 3, 5] [200, 150, 300] 3 = [True, False, True]"
  by (simp add: select_by_peak_distance_def np_argsort_example visit_peak_def
      clear_right.simps eval_nat_numeral)

lemma prominence_example: "map (prominence_of [0, 200, 0, 150, 0, 300, 0]) [1, 5] = [200, 300]"
  by (simp add: prominence_of_def right_min_scan.simps Let_def eval_nat_numeral)

lemma find_peaks_example: "find_peaks [0, 200, 0, 150, 0, 300, 0] 3 100 = Inr [1, 5]"
proof -
  have pri: "map (nth [0, 200, 0, 150, 0, 300, 0 :: real]) [1, 3, 5] = [200, 150, 300]"
    by simp
  have cmp: "np_compress [1, 3, 5 :: nat] [True, False, True] = [1, 5]"
    by (simp add: np_compress_def)
  have pp: "peak_prominences [0, 200, 0, 150, 0, 300, 0] [1, 5] = Inr [200, 300]"
    using prominence_example by (simp add: peak_prominences_def)
  show ?thesis
    unfolding find_peaks_def Let_def local_maxima_example pri select_example cmp pp
    by (simp add: np_compress_def)
qed

theorem find_peaks_spacing_witness:
  "(1::nat) \<le> 3
   \<and> local_maxima_1d [0, 200, 0, 150, 0, 300, 0] = [1, 3, 5]
   \<and> find_peaks [0, 200, 0, 150, 0, 300, 0] 3 100 = Inr [1, 5]"
  using find_peaks_spacing [of 3 "[0, 200, 0, 150, 0, 300, 0]" 100]
  by (simp add: local_maxima_example find_peaks_example)

subsection \<open>Signal conditioning\<close>

lemma moving_average_length:
  assumes "1 \<le> W" "W \<le> length xs"
  shows "\<exists>ys. moving_average xs W = Inr ys \<and> length ys = length xs - W + 1"
proof -
  from assms have "xs \<noteq> []" by auto
  with assms show ?thesis
    by (simp add: moving_average_def np_convolve_valid_def Let_def)
qed

lemma moving_average_swapped_length:
  assumes "1 \<le> length xs" "length xs < W"
  shows "\<exists>ys. moving_average xs W = Inr ys \<and> length ys = W - length xs + 1"
proof -
  from assms have "xs \<noteq> []" by auto
  with assms show ?thesis
    by (simp add: moving_average_def np_convolve_valid_def Let_def)
qed

lemma moving_average_empty:
  "W = 0 \<or> xs = [] \<Longrightarrow> moving_average xs W = Inl ValueError"
  by (auto simp: moving_average_def np_convolve_valid_def)

lemma length_lfilter_run [simp]: "length (lfilter_run b a z x) = length x"
  by (induction x arbitrary: z) (simp_all add: Let_def)

lemma lfilter_length:
  assumes "a \<noteq> []" "b \<noteq> []" "a ! 0 \<noteq> 0" "length zi = max (length a) (length b) - 1"
  shows "\<exists>y. lfilter b a x zi = Inr y \<and> length y = length x"
  using assms by (simp add: lfilter_def Let_def)

lemma length_odd_ext [simp]: "length (odd_ext x n) = length x + 2 * n"
  by (simp add: odd_ext_def)

lemma filtfilt_length:
  assumes a: "a \<noteq> []" "b \<noteq> []" "a ! 0 \<noteq> 0"
    and zi: "length (lfilter_zi b a) = max (length a) (length b) - 1"
    and x: "3 * max (length a) (length b) < length x"
  shows "\<exists>y. filtfilt lfilter_zi b a x = Inr y \<and> length y = length x"
proof -
  let ?edge = "3 * max (length a) (length b)"
  let ?ext = "odd_ext x ?edge"
  from lfilter_length [OF a, of "map (\<lambda>z. z * ?ext ! 0) (lfilter_zi b a)" ?ext] zi
  obtain y where y: "lfilter b a ?ext (map (\<lambda>z. z * ?ext ! 0) (lfilter_zi b a)) = Inr y"
    "length y = length x + 2 * ?edge"
    by auto
  from lfilter_length [OF a, of "map (\<lambda>z. z * last y) (lfilter_zi b a)" "rev y"] zi
  obtain y' where y': "lfilter b a (rev y) (map (\<lambda>z. z * last y) (lfilter_zi b a)) = Inr y'"
    "length y' = length y"
    by auto
  have "filtfilt lfilter_zi b a x = Inr (take (length y' - 2 * ?edge) (drop ?edge (rev y')))"
    using x y(1) y'(1) by (simp add: filtfilt_def Let_def)
  moreover have "length (take (length y' - 2 * ?edge) (drop ?edge (rev y'))) = length x"
    using y(2) y'(2) by simp
  ultimately show ?thesis by blast
qed

lemma filtfilt_too_short:
  "length x \<le> 3 * max (length a) (length b) \<Longrightarrow> filtfilt lfilter_zi b a x = Inl ValueError"
  by (simp add: filtfilt_def Let_def)

lemma lowpass_filter_length:
  assumes c: "0 < fs" "0 < cutoff" "cutoff < fs / 2"
    and d: "butter order (cutoff / (0.5 * fs)) = (b, a)" "length b = order + 1"
      "length a = order + 1" "a ! 0 \<noteq> 0"
    and zi: "length (lfilter_zi b a) = order"
    and x: "3 * (order + 1) < length data"
  shows "\<exists>y. lowpass_filter butter lfilter_zi data cutoff fs order = Inr y
             \<and> length y = length data"
proof -
  from c have "0 < cutoff / (0.5 * fs)" "cutoff / (0.5 * fs) < 1"
    by (simp_all add: field_simps)
  with c(1) d(1) have bl: "butter_lowpass butter cutoff fs order = Inr (b, a)"
    by (simp add: butter_lowpass_def Let_def)
  from d have ne: "a \<noteq> []" "b \<noteq> []" by auto
  from filtfilt_length [OF ne d(4), of lfilter_zi data] zi x d(2,3)
  have "\<exists>y. filtfilt lfilter_zi b a data = Inr y \<and> length y = length data" by simp
  with bl show ?thesis by (simp add: lowpass_filter_def)
qed

lemma length_convolve1d_constant [simp]:
  "length (convolve1d_constant x w) = length x"
  by (simp add: convolve1d_constant_def Let_def)

lemma length_fit_edge:
  assumes "window_start \<le> interp_start" "interp_start \<le> interp_stop" "interp_stop \<le> length y"
  shows "length (fit_edge polyfit x window_start window_stop interp_start interp_stop p y)
       = length y"
  using assms by (simp add: fit_edge_def Let_def)

lemma savgol_filter_length:
  assumes "polyorder < window_length" "odd window_length" "window_length \<le> length x"
  shows "\<exists>y. savgol_filter savgol_coeffs polyfit x window_length polyorder = Inr y
             \<and> length y = length x"
proof -
  let ?h = "window_length div 2"
  let ?n = "length x"
  let ?y0 = "convolve1d_constant x (savgol_coeffs window_length polyorder)"
  let ?y1 = "fit_edge polyfit x 0 window_length 0 ?h polyorder ?y0"
  let ?y2 = "fit_edge polyfit x (?n - window_length) ?n (?n - ?h) ?n polyorder ?y1"
  from assms(3) have h: "?h \<le> ?n" by simp
  have l1: "length ?y1 = ?n"
    using h by (simp add: length_fit_edge)
  have l2: "length ?y2 = ?n"
    using l1 by (subst length_fit_edge) simp_all
  have "savgol_filter savgol_coeffs polyfit x window_length polyorder = Inr ?y2"
    using assms by (simp add: savgol_filter_def Let_def odd_iff_mod_2_eq_one)
  with l2 show ?thesis by blast
qed

lemma savgol_stage_length:
  assumes "polyorder < window_length" "odd window_length"
  shows "(window_length \<le> length x \<longrightarrow>
            (\<exists>y. savgol_stage savgol_coeffs polyfit x window_length polyorder = Inr (Smoothed y)
               \<and> length y = length x))
       \<and> (length x < window_length \<longrightarrow>
            savgol_stage savgol_coeffs polyfit x window_length polyorder = Inr Skipped)"
proof (cases "window_length \<le> length x")
  case True
  from savgol_filter_length [OF assms True, of savgol_coeffs polyfit] True show ?thesis
    by (auto simp: savgol_stage_def)
next
  case False
  then show ?thesis by (simp add: savgol_stage_def)
qed

text \<open>
  C4, as stated, fails: a moving average of window 5 over a series of length 3 returns
  three values, not \<open>3 - 5 + 1\<close>.
\<close>

theorem moving_average_long_window_counterexample:
  "moving_average [1, 2, 3] 5 = Inr [6 / 5, 6 / 5, 6 / 5]
   \<and> int (length [6 / 5, 6 / 5, 6 / 5 :: real]) \<noteq> int (length [1, 2, 3 :: real]) - 5 + 1"
  by (simp add: moving_average_def np_convolve_valid_def Let_def upt_conv_Cons eval_nat_numeral)

text \<open>
  C4, amended. For an input series of length \<open>L\<close>: the moving average of window \<open>W\<close>
  with \<open>1 \<le> W \<le> L\<close> returns \<open>L - W + 1\<close> values (for \<open>W > L \<ge> 1\<close> it returns
  \<open>W - L + 1\<close> values); the Butterworth conditioner of order \<open>n\<close> (cut-off below the
  Nyquist frequency, a design with \<open>n + 1\<close> coefficients each and \<open>n\<close> state values)
  returns exactly \<open>L\<close> values when \<open>L > 3 (n + 1)\<close> and raises \<^verbatim>\<open>ValueError\<close> for a
  shorter series; the Savitzky-Golay stage with an odd window \<open>W\<close> above the polynomial
  order returns exactly \<open>L\<close> values when \<open>W \<le> L\<close> and skips the cycle otherwise.
\<close>

theorem conditioner_lengths:
  "(1 \<le> W \<and> W \<le> length xs \<longrightarrow>
      (\<exists>ys. moving_average xs W = Inr ys \<and> length ys = length xs - W + 1))
   \<and> (1 \<le> length xs \<and> length xs < W \<longrightarrow>
      (\<exists>ys. moving_average xs W = Inr ys \<and> length ys = W - length xs + 1))
   \<and> (0 < fs \<and> 0 < cutoff \<and> cutoff < fs / 2
        \<and> butter order (cutoff / (0.5 * fs)) = (b, a)
        \<and> length b = order + 1 \<and> length a = order + 1 \<and> a ! 0 \<noteq> 0
        \<and> length (lfilter_zi b a) = order \<longrightarrow>
      (3 * (order + 1) < length xs \<longrightarrow>
         (\<exists>ys. lowpass_filter butter lfilter_zi xs cutoff fs order = Inr ys
             \<and> length ys = length xs))
      \<and> (length xs \<le> 3 * (order + 1) \<longrightarrow>
         lowpass_filter butter lfilter_zi xs cutoff fs order = Inl ValueError))
   \<and> (polyorder < W \<and> odd W \<longrightarrow>
      (W \<le> length xs \<longrightarrow>
         (\<exists>ys. savgol_stage savgol_coeffs polyfit xs W polyorder = Inr (Smoothed ys)
             \<and> length ys = length xs))
      \<and> (length xs < W \<longrightarrow>
         savgol_stage savgol_coeffs polyfit xs W polyorder = Inr Skipped))"
proof (intro conjI impI)
  assume "1 \<le> W \<and> W \<le> length xs"
  then show "\<exists>ys. moving_average xs W = Inr ys \<and> length ys = length xs - W + 1"
    by (intro moving_average_length) simp_all
next
  assume "1 \<le> length xs \<and> length xs < W"
  then show "\<exists>ys. moving_average xs W = Inr ys \<and> length ys = W - length xs + 1"
    by (intro moving_average_swapped_length) simp_all
next
  assume d: "0 < fs \<and> 0 < cutoff \<and> cutoff < fs / 2
        \<and> butter order (cutoff / (0.5 * fs)) = (b, a)
        \<and> length b = order + 1 \<and> length a = order + 1 \<and> a ! 0 \<noteq> 0
        \<and> length (lfilter_zi b a) = order"
    and "3 * (order + 1) < length xs"
  then show "\<exists>ys. lowpass_filter butter lfilter_zi xs cutoff fs order = Inr ys
             \<and> length ys = length xs"
    by (intro lowpass_filter_length [of fs cutoff butter order b a]) simp_all
next
  assume d: "0 < fs \<and> 0 < cutoff \<and> cutoff < fs / 2
        \<and> butter order (cutoff / (0.5 * fs)) = (b, a)
        \<and> length b = order + 1 \<and> length a = order + 1 \<and> a ! 0 \<noteq> 0
        \<and> length (lfilter_zi b a) = order"
    and s: "length xs \<le> 3 * (order + 1)"
  from d have "0 < cutoff / (0.5 * fs)" "cutoff / (0.5 * fs) < 1"
    by (simp_all add: field_simps)
  with d have "butter_lowpass butter cutoff fs order = Inr (b, a)"
    by (simp add: butter_lowpass_def Let_def)
  moreover from d s have "filtfilt lfilter_zi b a xs = Inl ValueError"
    by (intro filtfilt_too_short) simp
  ultimately show "lowpass_filter butter lfilter_zi xs cutoff fs order = Inl ValueError"
    by (simp add: lowpass_filter_def)
next
  assume "polyorder < W \<and> odd W" and "W \<le> length xs"
  with savgol_stage_length [of polyorder W xs savgol_coeffs polyfit]
  show "\<exists>ys. savgol_stage savgol_coeffs polyfit xs W polyorder = Inr (Smoothed ys)
             \<and> length ys = length xs"
    by simp
next
  assume "polyorder < W \<and> odd W" and "length xs < W"
  with savgol_stage_length [of polyorder W xs savgol_coeffs polyfit]
  show "savgol_stage savgol_coeffs polyfit xs W polyorder = Inr Skipped"
    by simp
qed

theorem conditioner_lengths_witness:
  "moving_average [1, 2, 3, 4, 5, 6, 7] 3 = Inr [2, 3, 4, 5, 6]
   \<and> two_tap_butter 1 ((6 / 10) / (0.5 * 100)) = ([1 / 2, 1 / 2], [1, 0])
   \<and> lowpass_filter two_tap_butter two_tap_zi [1, 2, 3, 4, 5, 6, 7] (6 / 10) 100 1
       = Inr [1, 2, 3, 4, 5, 6, 7]
   \<and> savgol_stage mean3_coeffs line_polyfit [1, 2, 3, 4, 5, 6, 7] 3 1
       = Inr (Smoothed [1, 2, 3, 4, 5, 6, 7])"
proof -
  have ma: "moving_average [1, 2, 3, 4, 5, 6, 7] 3 = Inr [2, 3, 4, 5, 6]"
    by (simp add: moving_average_def np_convolve_valid_def Let_def upt_conv_Cons
        eval_nat_numeral)
  have lp: "lowpass_filter two_tap_butter two_tap_zi [1, 2, 3, 4, 5, 6, 7] (6 / 10) 100 1
       = Inr [1, 2, 3, 4, 5, 6, 7]"
    by code_simp
  have sg: "savgol_stage mean3_coeffs line_polyfit [1, 2, 3, 4, 5, 6, 7] 3 1
       = Inr (Smoothed [1, 2, 3, 4, 5, 6, 7])"
    by code_simp
  from conditioner_lengths [of 3 "[1, 2, 3, 4, 5, 6, 7]" 100 "6 / 10" two_tap_butter 1
      "[1 / 2, 1 / 2]" "[1, 0]" two_tap_zi 1 mean3_coeffs line_polyfit] ma lp sg
  show ?thesis by (simp add: two_tap_butter_def)
qed

subsection \<open>Burst spectral analysis\<close>

lemma argmax_from_spec:
  assumes "w = pre @ ys" "i = length pre" "best < i" "best_val = w ! best"
    "\<forall>k<i. w ! k \<le> best_val" "\<forall>k<best. w ! k < best_val"
  shows "argmax_from ys i best best_val < length w
       \<and> (\<forall>k<length w. w ! k \<le> w ! argmax_from ys i best best_val)
       \<and> (\<forall>k<argmax_from ys i best best_val. w ! k < w ! argmax_from ys i best best_val)"
  using assms
proof (induction ys arbitrary: pre i best best_val)
  case Nil
  then show ?case by simp
next
  case (Cons y ys)
  have wi: "w ! i = y" using Cons.prems(1,2) by simp
  have w: "w = (pre @ [y]) @ ys" "i + 1 = length (pre @ [y])"
    using Cons.prems(1,2) by simp_all
  show ?case
  proof (cases "best_val < y")
    case True
    have "\<forall>k<i + 1. w ! k \<le> y"
      using Cons.prems(5) True wi by (auto simp: less_Suc_eq)
    moreover have "\<forall>k<i. w ! k < y"
      using Cons.prems(5) True by fastforce
    ultimately show ?thesis
      using Cons.IH [OF w, of i y] True wi by simp
  next
    case False
    have "\<forall>k<i + 1. w ! k \<le> best_val"
      using Cons.prems(5) False wi by (auto simp: less_Suc_eq)
    then show ?thesis
      using Cons.IH [OF w, of best best_val] Cons.prems(3,4,6) False by simp
  qed
qed

lemma np_argmax_spec:
  assumes "a \<noteq> []"
  shows "\<exists>i. np_argmax a = Inr i \<and> i < length a \<and> (\<forall>k<length a. a ! k \<le> a ! i)
             \<and> (\<forall>k<i. a ! k < a ! i)"
proof -
  from assms obtain y ys where a: "a = y # ys" by (cases a) auto
  have "argmax_from ys 1 0 y < length a
       \<and> (\<forall>k<length a. a ! k \<le> a ! argmax_from ys 1 0 y)
       \<and> (\<forall>k<argmax_from ys 1 0 y. a ! k < a ! argmax_from ys 1 0 y)"
    by (rule argmax_from_spec [where pre = "[y]"]) (simp_all add: a)
  then show ?thesis by (simp add: np_argmax_def a)
qed

lemma np_max_nonempty: "a \<noteq> [] \<Longrightarrow> \<exists>m. np_max a = Inr m"
  by (cases a) (simp_all add: np_max_def)

lemma np_min_nonempty: "a \<noteq> [] \<Longrightarrow> \<exists>m. np_min a = Inr m"
  by (cases a) (simp_all add: np_min_def)

lemma length_np_hanning [simp]: "length (np_hanning M) = M"
  by (simp add: np_hanning_def)

lemma length_windowed [simp]: "length (windowed v) = length v"
  by (simp add: windowed_def)

lemma one_sided_bins:
  assumes "1 \<le> length x"
  shows "\<exists>one. one_sided x = Inr one \<and> length one = length x div 2
     \<and> (\<forall>k<length one. one ! k =
            sum_list (map (\<lambda>m. complex_of_real (x ! m)
                            * cis (- 2 * pi * real k * real m / real (length x)))
                        [0..<length x]))"
proof -
  from assms have ne: "x \<noteq> []" by auto
  have "[0..<length x] ! k = k" if "k < length x div 2" for k
  proof -
    from that have "k < length x" by arith
    then show ?thesis by simp
  qed
  with ne show ?thesis
    by (simp add: one_sided_def np_fft_def Let_def)
qed

lemma np_fftfreq_front:
  assumes "0 < n" "0 < d"
  shows "\<exists>fr. np_fftfreq n d = Inr fr \<and> length fr = n
     \<and> (\<forall>k<n div 2. fr ! k = real k / (real n * d))"
proof -
  let ?N = "(n - 1) div 2 + 1"
  have le: "n div 2 \<le> ?N" by arith
  have len: "?N + n div 2 = n" using assms(1) by arith
  have "(map (\<lambda>r. r * (1 / (real n * d)))
          (map real_of_int (map int [0..<?N])
           @ map (\<lambda>i. real_of_int (int i - int (n div 2))) [0..<n div 2])) ! k
        = real k / (real n * d)" if "k < n div 2" for k
  proof -
    from that le have "k < ?N" by simp
    then show ?thesis by (simp add: nth_append)
  qed
  moreover have "real n * d \<noteq> 0" using assms by simp
  ultimately show ?thesis
    using len by (simp add: np_fftfreq_def Let_def)
qed

lemma analyse_burst_value:
  assumes n: "2 \<le> length v_filt" and sr: "0 < SAMPLING_RATE"
    and one: "one_sided (windowed v_filt) = Inr one" "length one = length v_filt div 2"
    and fr: "np_fftfreq (length v_filt) (1 / real SAMPLING_RATE) = Inr freqs"
    and idx: "np_argmax (mag_lin_of one (length v_filt)) = Inr res_idx"
  shows "\<exists>r. analyse_burst v_filt SAMPLING_RATE = Inr r
     \<and> burst_total_E r = sum_list (map (\<lambda>z. (cmod z)\<^sup>2) one)
     \<and> burst_f_axis r = take (length one) freqs
     \<and> burst_res_freq r = take (length one) freqs ! res_idx"
proof -
  from n one(2) have "one \<noteq> []" by auto
  then have "map (\<lambda>m. 20 * log 10 (m + 1 / 10 ^ 12)) (mag_lin_of one (length v_filt)) \<noteq> []"
    by (simp add: mag_lin_of_def)
  from np_max_nonempty [OF this] obtain peak_dB where
    pk: "np_max (map (\<lambda>m. 20 * log 10 (m + 1 / 10 ^ 12)) (mag_lin_of one (length v_filt)))
         = Inr peak_dB" ..
  from n have ne: "v_filt \<noteq> []" "map abs v_filt \<noteq> []" by auto
  from np_max_nonempty [OF ne(1)] obtain hi where hi: "np_max v_filt = Inr hi" ..
  from np_min_nonempty [OF ne(1)] obtain lo where lo: "np_min v_filt = Inr lo" ..
  from np_argmax_spec [OF ne(2)] obtain pki where pki: "np_argmax (map abs v_filt) = Inr pki"
    by blast
  show ?thesis
    using sr one(1) fr idx pk hi lo pki
    by (simp add: analyse_burst_def Let_def)
qed

text \<open>
  C9, amended. For every burst of at least two samples (and a non-zero sampling rate) the
  analyser's total energy is the sum over the retained bins of the squared modulus
  \<open>|bin|\<^sup>2\<close> of the DFT bin, which is \<open>N\<^sup>2\<close> times the sum of the squared magnitudes
  \<open>|bin| / N\<close>; the resonance frequency is the value of the frequency axis,
  \<open>k * SAMPLING_RATE / N\<close>, at the first bin \<open>k\<close> of maximal linear magnitude.
\<close>

theorem analyse_burst_energy_and_resonance:
  assumes "2 \<le> length v_filt" and "0 < SAMPLING_RATE"
  shows "\<exists>r one res_idx. analyse_burst v_filt SAMPLING_RATE = Inr r
     \<and> one_sided (windowed v_filt) = Inr one \<and> length one = length v_filt div 2
     \<and> burst_total_E r = (\<Sum>k<length one. (cmod (one ! k))\<^sup>2)
     \<and> burst_total_E r = (real (length v_filt))\<^sup>2
          * (\<Sum>k<length one. (mag_lin_of one (length v_filt) ! k)\<^sup>2)
     \<and> np_argmax (mag_lin_of one (length v_filt)) = Inr res_idx \<and> res_idx < length one
     \<and> (\<forall>k<length one. mag_lin_of one (length v_filt) ! k
                          \<le> mag_lin_of one (length v_filt) ! res_idx)
     \<and> burst_res_freq r = burst_f_axis r ! res_idx
     \<and> burst_f_axis r ! res_idx
         = real res_idx * real SAMPLING_RATE / real (length v_filt)"
proof -
  let ?n = "length v_filt"
  from assms(1) have "1 \<le> length (windowed v_filt)" by simp
  from one_sided_bins [OF this] obtain one where
    one: "one_sided (windowed v_filt) = Inr one" "length one = ?n div 2"
    by auto
  let ?mag = "mag_lin_of one ?n"
  from assms(1) one(2) have "?mag \<noteq> []" by (auto simp: mag_lin_of_def)
  from np_argmax_spec [OF this] obtain res_idx where
    idx: "np_argmax ?mag = Inr res_idx" "res_idx < length one"
      "\<forall>k<length one. ?mag ! k \<le> ?mag ! res_idx"
    by (auto simp: mag_lin_of_def)
  have "0 < ?n" "0 < 1 / real SAMPLING_RATE" using assms by auto
  from np_fftfreq_front [OF this] obtain freqs where
    fr: "np_fftfreq ?n (1 / real SAMPLING_RATE) = Inr freqs"
      "\<forall>k<?n div 2. freqs ! k = real k / (real ?n * (1 / real SAMPLING_RATE))"
    by blast
  from analyse_burst_value [OF assms one fr(1) idx(1)] obtain r where
    r: "analyse_burst v_filt SAMPLING_RATE = Inr r"
      "burst_total_E r = sum_list (map (\<lambda>z. (cmod z)\<^sup>2) one)"
      "burst_f_axis r = take (length one) freqs"
      "burst_res_freq r = take (length one) freqs ! res_idx"
    by blast
  have e1: "burst_total_E r = (\<Sum>k<length one. (cmod (one ! k))\<^sup>2)"
    by (simp add: r(2) sum_list_sum_nth atLeast0LessThan)
  have npos: "real ?n \<noteq> 0" using assms(1) by auto
  have "(real ?n)\<^sup>2 * (\<Sum>k<length one. (?mag ! k)\<^sup>2)
      = (\<Sum>k<length one. (real ?n)\<^sup>2 * (?mag ! k)\<^sup>2)"
    by (simp add: sum_distrib_left)
  also have "\<dots> = (\<Sum>k<length one. (cmod (one ! k))\<^sup>2)"
  proof (rule sum.cong)
    fix k assume "k \<in> {..<length one}"
    then have "?mag ! k = cmod (one ! k) / real ?n" by (simp add: mag_lin_of_def)
    then show "(real ?n)\<^sup>2 * (?mag ! k)\<^sup>2 = (cmod (one ! k))\<^sup>2"
      using npos by (simp add: power_divide)
  qed simp
  finally have e2: "burst_total_E r = (real ?n)\<^sup>2 * (\<Sum>k<length one. (?mag ! k)\<^sup>2)"
    using e1 by simp
  have f1: "burst_res_freq r = burst_f_axis r ! res_idx" by (simp add: r(3,4))
  have f2: "burst_f_axis r ! res_idx = real res_idx * real SAMPLING_RATE / real ?n"
    using idx(2) one(2) fr(2) by (simp add: r(3))
  from r(1) one e1 e2 idx f1 f2 show ?thesis by blast
qed

lemma windowed_example: "windowed [0, 3300, 0] = [0, 2200, 0]"
  by (simp add: windowed_def np_mean_def np_hanning_def upt_conv_Cons)

lemma one_sided_example: "one_sided [0, 2200, 0] = Inr [2200]"
  by (simp add: one_sided_def np_fft_def Let_def upt_conv_Cons)

lemma mag_lin_example: "mag_lin_of [2200] 3 = [2200 / 3]"
  by (simp add: mag_lin_of_def)

lemma total_E_example:
  "map_sum id burst_total_E (analyse_burst [0, 3300, 0] 10000) = Inr 4840000"
  by (simp add: analyse_burst_def Let_def windowed_example one_sided_example mag_lin_of_def
      np_fftfreq_def np_max_def np_min_def np_argmax_def)

text \<open>
  C9, as stated, fails: for the three-sample burst 0, 3300, 0 mV the single retained bin
  is 2200 and its magnitude 2200 / 3; the reported energy is \<open>2200\<^sup>2\<close>, not the square
  of the magnitude.
\<close>

theorem total_energy_unnormalised_counterexample:
  "map_sum id burst_total_E (analyse_burst [0, 3300, 0] 10000) = Inr 4840000
   \<and> one_sided (windowed [0, 3300, 0]) = Inr [2200]
   \<and> mag_lin_of [2200] 3 = [2200 / 3]
   \<and> (2200 / 3)\<^sup>2 \<noteq> (4840000 :: real)"
  using total_E_example
  by (simp add: windowed_example one_sided_example mag_lin_example power2_eq_square)

theorem analyse_burst_energy_and_resonance_witness:
  "(2::nat) \<le> length [0, 3300, 0 :: real] \<and> (0::nat) < 10000
   \<and> one_sided (windowed [0, 3300, 0]) = Inr [2200]
   \<and> map_sum id burst_total_E (analyse_burst [0, 3300, 0] 10000) = Inr ((cmod 2200)\<^sup>2)
   \<and> map_sum id burst_res_freq (analyse_burst [0, 3300, 0] 10000) = Inr 0"
proof -
  have "map_sum id burst_res_freq (analyse_burst [0, 3300, 0] 10000) = Inr 0"
    by (simp add: analyse_burst_def Let_def windowed_example one_sided_example mag_lin_of_def
        np_fftfreq_def np_max_def np_min_def np_argmax_def)
  with analyse_burst_energy_and_resonance [of "[0, 3300, 0]" 10000] total_E_example
  show ?thesis
    by (simp add: windowed_example one_sided_example)
qed

subsection \<open>Effects of conditioning on the store\<close>

lemma masked_write:
  "map2 (\<lambda>s m. if m then c else s) xs (map p xs) = map (\<lambda>s. if p s then c else s) xs"
  by (induction xs) simp_all

lemma filter_voltage_in_place:
  "fst (filter_voltage h v thresh) = v
   \<and> cells (snd (filter_voltage h v thresh)) v = deadband (cells h v) thresh
   \<and> next_free (snd (filter_voltage h v thresh)) = next_free h"
  by (simp add: filter_voltage_def deadband_def Let_def masked_write)

lemma filter_voltage_elsewhere:
  "a \<noteq> v \<Longrightarrow> cells (snd (filter_voltage h v thresh)) a = cells h a"
  by (simp add: filter_voltage_def Let_def)

lemma alloc_fresh:
  "fst (alloc h a) = next_free h \<and> cells (snd (alloc h a)) (next_free h) = a
   \<and> next_free (snd (alloc h a)) = Suc (next_free h)"
  by (simp add: alloc_def)

lemma alloc_elsewhere: "b \<noteq> next_free h \<Longrightarrow> cells (snd (alloc h a)) b = cells h b"
  by (simp add: alloc_def)

lemma process_burst_metrics:
  "map_sum id fst (process_burst h buf SAMPLING_RATE NOISE_DEADBAND)
     = burst_metrics buf SAMPLING_RATE NOISE_DEADBAND"
proof (cases "frombuffer_u16 buf")
  case (Inl e)
  then show ?thesis by (simp add: process_burst_def burst_metrics_def)
next
  case (Inr adc)
  let ?t = "alloc h (map to_mV adc)"
  let ?f = "filter_voltage (snd ?t) (fst ?t) NOISE_DEADBAND"
  have "cells (snd ?f) (fst ?f) = deadband (map to_mV adc) NOISE_DEADBAND"
    using filter_voltage_in_place [of "snd ?t" "fst ?t" NOISE_DEADBAND]
      alloc_fresh [of h "map to_mV adc"] by simp
  with Inr show ?thesis
    by (cases "analyse_burst (deadband (map to_mV adc) NOISE_DEADBAND) SAMPLING_RATE")
      (simp_all add: process_burst_def burst_metrics_def Let_def)
qed

lemma process_burst_frame:
  assumes "process_burst h buf SAMPLING_RATE NOISE_DEADBAND = Inr (r, h')" "a < next_free h"
  shows "cells h' a = cells h a"
proof -
  from assms(1) obtain adc where adc: "frombuffer_u16 buf = Inr adc"
    by (auto simp: process_burst_def split: sum.splits)
  let ?t = "alloc h (map to_mV adc)"
  let ?f = "filter_voltage (snd ?t) (fst ?t) NOISE_DEADBAND"
  from assms(1) adc have h': "h' = snd ?f"
    by (auto simp: process_burst_def Let_def split: sum.splits)
  from assms(2) have ne: "a \<noteq> next_free h" by simp
  then have "a \<noteq> fst ?t" by (simp add: alloc_def)
  then have "cells (snd ?f) a = cells (snd ?t) a" by (rule filter_voltage_elsewhere)
  also from ne have "\<dots> = cells h a" by (rule alloc_elsewhere)
  finally show ?thesis by (simp add: h')
qed

lemma returned_fresh:
  assumes "v < next_free h" "(out, h') = alloc h ys"
  shows "cells h' v = cells h v \<and> out \<noteq> v \<and> cells h' out = ys"
  using assms by (auto simp: alloc_def)

text \<open>
  C7, as stated, fails: the dead-band filter changes its caller's series. An array
  holding 1000, 1100, 1200 holds 1100, 1100, 1100 after the call, and the array returned
  is that same array.
\<close>

theorem filter_voltage_overwrites_input_counterexample:
  "cells caller_heap 0 = [1000, 1100, 1200]
   \<and> fst (filter_voltage caller_heap 0 100) = 0
   \<and> cells (snd (filter_voltage caller_heap 0 100)) 0 = [1100, 1100, 1100]"
  by (simp add: caller_heap_def filter_voltage_def np_mean_def Let_def)

text \<open>
  C7, amended. Every conditioning strategy computes its output from the input series
  alone. The moving-average, Butterworth and Savitzky-Golay conditioners return a new
  array and leave their input unchanged; the dead-band filter writes its result into the
  array it is given (every other array is untouched) and returns that array. The burst
  pipeline applies it to an array it has just created, so processing a captured frame
  changes no array that existed before, and processing the same frame again, from any
  store, yields the same metrics.
\<close>

theorem conditioning_effects:
  "fst (filter_voltage h v thresh) = v
   \<and> cells (snd (filter_voltage h v thresh)) v = deadband (cells h v) thresh
   \<and> (\<forall>a. a \<noteq> v \<longrightarrow> cells (snd (filter_voltage h v thresh)) a = cells h a)
   \<and> (\<forall>out h'. v < next_free h \<and> moving_average_at h v W = Inr (out, h') \<longrightarrow>
         cells h' v = cells h v \<and> out \<noteq> v
         \<and> moving_average (cells h v) W = Inr (cells h' out))
   \<and> (\<forall>out h'. v < next_free h
           \<and> lowpass_filter_at butter lfilter_zi h v cutoff fs order = Inr (out, h') \<longrightarrow>
         cells h' v = cells h v \<and> out \<noteq> v
         \<and> lowpass_filter butter lfilter_zi (cells h v) cutoff fs order = Inr (cells h' out))
   \<and> (\<forall>out h'. v < next_free h
           \<and> savgol_filter_at savgol_coeffs polyfit h v W polyorder = Inr (out, h') \<longrightarrow>
         cells h' v = cells h v \<and> out \<noteq> v
         \<and> savgol_filter savgol_coeffs polyfit (cells h v) W polyorder = Inr (cells h' out))
   \<and> (\<forall>r h'. process_burst h buf SAMPLING_RATE NOISE_DEADBAND = Inr (r, h') \<longrightarrow>
         (\<forall>a<next_free h. cells h' a = cells h a)
         \<and> (\<forall>h2. map_sum id fst (process_burst h2 buf SAMPLING_RATE NOISE_DEADBAND) = Inr r))"
proof (intro conjI allI impI)
  show "fst (filter_voltage h v thresh) = v"
    and "cells (snd (filter_voltage h v thresh)) v = deadband (cells h v) thresh"
    using filter_voltage_in_place [of h v thresh] by simp_all
next
  fix a assume "a \<noteq> v"
  then show "cells (snd (filter_voltage h v thresh)) a = cells h a"
    by (rule filter_voltage_elsewhere)
next
  fix out h'
  assume a: "v < next_free h \<and> moving_average_at h v W = Inr (out, h')"
  then obtain ys where ys: "moving_average (cells h v) W = Inr ys" "(out, h') = alloc h ys"
    by (auto simp: moving_average_at_def split: sum.splits)
  from a have "v < next_free h" by simp
  from returned_fresh [OF this ys(2)] ys(1)
  show "cells h' v = cells h v" "out \<noteq> v" "moving_average (cells h v) W = Inr (cells h' out)"
    by simp_all
next
  fix out h'
  assume a: "v < next_free h
    \<and> lowpass_filter_at butter lfilter_zi h v cutoff fs order = Inr (out, h')"
  then obtain ys where ys: "lowpass_filter butter lfilter_zi (cells h v) cutoff fs order = Inr ys"
    "(out, h') = alloc h ys"
    by (auto simp: lowpass_filter_at_def split: sum.splits)
  from a have "v < next_free h" by simp
  from returned_fresh [OF this ys(2)] ys(1)
  show "cells h' v = cells h v" "out \<noteq> v"
    "lowpass_filter butter lfilter_zi (cells h v) cutoff fs order = Inr (cells h' out)"
    by simp_all
next
  fix out h'
  assume a: "v < next_free h
    \<and> savgol_filter_at savgol_coeffs polyfit h v W polyorder = Inr (out, h')"
  then obtain ys where ys: "savgol_filter savgol_coeffs polyfit (cells h v) W polyorder = Inr ys"
    "(out, h') = alloc h ys"
    by (auto simp: savgol_filter_at_def split: sum.splits)
  from a have "v < next_free h" by simp
  from returned_fresh [OF this ys(2)] ys(1)
  show "cells h' v = cells h v" "out \<noteq> v"
    "savgol_filter savgol_coeffs polyfit (cells h v) W polyorder = Inr (cells h' out)"
    by simp_all
next
  fix r h' a
  assume "process_burst h buf SAMPLING_RATE NOISE_DEADBAND = Inr (r, h')" "a < next_free h"
  then show "cells h' a = cells h a" by (rule process_burst_frame)
next
  fix r h' h2
  assume p: "process_burst h buf SAMPLING_RATE NOISE_DEADBAND = Inr (r, h')"
  have "burst_metrics buf SAMPLING_RATE NOISE_DEADBAND = Inr r"
    using process_burst_metrics [of h buf SAMPLING_RATE NOISE_DEADBAND] p by simp
  then show "map_sum id fst (process_burst h2 buf SAMPLING_RATE NOISE_DEADBAND) = Inr r"
    by (simp add: process_burst_metrics)
qed

lemma burst_frame_example:
  "frombuffer_u16 [0, 0, 0xFF, 0x0F, 0, 0] = Inr [0, 4095, 0]"
  by (simp add: frombuffer_u16_def u16_le_def)

lemma burst_metrics_example:
  "map_sum id burst_total_E (burst_metrics [0, 0, 0xFF, 0x0F, 0, 0] 10000 100) = Inr 4840000"
  using total_E_example
  by (simp add: burst_metrics_def burst_frame_example to_mV_def deadband_def np_mean_def Let_def)

theorem conditioning_effects_witness:
  "(0::nat) < next_free caller_heap
   \<and> fst (filter_voltage caller_heap 0 100) = 0
   \<and> cells (snd (filter_voltage caller_heap 0 100)) 0 = [1100, 1100, 1100]
   \<and> moving_average_at caller_heap 0 2 = Inr (alloc caller_heap [1050, 1150])
   \<and> cells (snd (alloc caller_heap [1050, 1150])) 0 = [1000, 1100, 1200]
   \<and> map_sum id burst_total_E
        (map_sum id fst (process_burst caller_heap [0, 0, 0xFF, 0x0F, 0, 0] 10000 100))
       = Inr 4840000"
proof -
  note ce = conditioning_effects [of caller_heap 0 100]
  have c0: "(0::nat) < next_free caller_heap" by (simp add: caller_heap_def)
  have c1: "fst (filter_voltage caller_heap 0 100) = 0"
    by (rule ce [THEN conjunct1])
  have "cells (snd (filter_voltage caller_heap 0 100)) 0 = deadband (cells caller_heap 0) 100"
    by (rule ce [THEN conjunct2, THEN conjunct1])
  then have c2: "cells (snd (filter_voltage caller_heap 0 100)) 0 = [1100, 1100, 1100]"
    by (simp add: caller_heap_def deadband_def np_mean_def Let_def)
  have "moving_average (cells caller_heap 0) 2 = Inr [1050, 1150]"
    by (simp add: caller_heap_def moving_average_def np_convolve_valid_def Let_def
        upt_conv_Cons eval_nat_numeral)
  then have c3: "moving_average_at caller_heap 0 2 = Inr (alloc caller_heap [1050, 1150])"
    by (simp add: moving_average_at_def)
  have c4: "cells (snd (alloc caller_heap [1050, 1150])) 0 = [1000, 1100, 1200]"
    by (simp add: caller_heap_def alloc_def)
  have c5: "map_sum id burst_total_E
        (map_sum id fst (process_burst caller_heap [0, 0, 0xFF, 0x0F, 0, 0] 10000 100))
       = Inr 4840000"
    by (simp only: process_burst_metrics burst_metrics_example)
  from c0 c1 c2 c3 c4 c5 show ?thesis by (intro conjI)
qed

end
